theory Spec2Isabelle
  imports Main "HOL-Library.Product_Lexorder" "HOL-Library.Signed_Division"
begin

section \<open>The knowledge engine of minesweeper.py\<close>

text \<open>
  A cell is a pair of Python integers. Python sets are modelled as HOL sets (every Python
  set is finite, see \<open>finite_state\<close> below), Python lists as HOL lists, and every
  exception the source can raise as a value of \<open>error\<close>.
\<close>

type_synonym cell = "int \<times> int"

datatype error = ValueError | IndexError | TypeError

subsection \<open>class Sentence (lines 88 to 128)\<close>

record sentence =
  cells :: "cell set"
  count :: int

text \<open>\<open>__init__\<close>: \<open>self.cells = set(cells); self.count = count\<close>.\<close>

definition Sentence :: "cell set \<Rightarrow> int \<Rightarrow> sentence" where
  "Sentence cs n = \<lparr>cells = cs, count = n\<rparr>"

text \<open>\<open>__sub__\<close> (line 108): no check that one cell set contains the other.\<close>

definition Sentence_sub :: "sentence \<Rightarrow> sentence \<Rightarrow> sentence" where
  "Sentence_sub self other = Sentence (cells self - cells other) (count self - count other)"

text \<open>\<open>known_mines\<close> and \<open>known_safes\<close> return the cell set or Python's \<open>None\<close>.\<close>

definition known_mines :: "sentence \<Rightarrow> cell set option" where
  "known_mines self = (if count self = int (card (cells self)) then Some (cells self) else None)"

definition known_safes :: "sentence \<Rightarrow> cell set option" where
  "known_safes self = (if count self = 0 then Some (cells self) else None)"

text \<open>
  The truth value Python gives the result of \<open>known_mines()\<close> in \<open>if sentence.known_mines():\<close>:
  \<open>None\<close> and the empty set are false.
\<close>

definition truthy :: "cell set option \<Rightarrow> bool" where
  "truthy r = (case r of None \<Rightarrow> False | Some S \<Rightarrow> S \<noteq> {})"

definition Sentence_mark_mine :: "sentence \<Rightarrow> cell \<Rightarrow> sentence" where
  "Sentence_mark_mine self cell =
     (if cell \<in> cells self then self\<lparr>cells := cells self - {cell}, count := count self - 1\<rparr>
      else self)"

definition Sentence_mark_safe :: "sentence \<Rightarrow> cell \<Rightarrow> sentence" where
  "Sentence_mark_safe self cell =
     (if cell \<in> cells self then self\<lparr>cells := cells self - {cell}\<rparr> else self)"

subsection \<open>class MinesweeperAI (lines 131 to 233)\<close>

record minesweeper_ai =
  height :: int
  width :: int
  moves_made :: "cell set"
  mines :: "cell set"
  safes :: "cell set"
  knowledge :: "sentence list"
  MINE_COUNT :: int

definition MinesweeperAI :: "int \<Rightarrow> int \<Rightarrow> minesweeper_ai" where
  "MinesweeperAI h w =
     \<lparr>height = h, width = w, moves_made = {}, mines = {}, safes = {}, knowledge = [],
      MINE_COUNT = 8\<rparr>"

text \<open>
  \<open>mark_mine\<close> and \<open>mark_safe\<close> mutate every sentence of \<open>self.knowledge\<close> in place. No
  two entries of the list are ever the same object (each sentence is built by
  \<open>Sentence(...)\<close>, \<open>__sub__\<close> or \<open>deepcopy\<close> and appended once), so the mutation is a
  \<open>map\<close> over a list of values.
\<close>

definition mark_mine :: "minesweeper_ai \<Rightarrow> cell \<Rightarrow> minesweeper_ai" where
  "mark_mine self cell =
     self\<lparr>mines := insert cell (mines self),
          knowledge := map (\<lambda>sentence. Sentence_mark_mine sentence cell) (knowledge self)\<rparr>"

definition mark_safe :: "minesweeper_ai \<Rightarrow> cell \<Rightarrow> minesweeper_ai" where
  "mark_safe self cell =
     self\<lparr>safes := insert cell (safes self),
          knowledge := map (\<lambda>sentence. Sentence_mark_safe sentence cell) (knowledge self)\<rparr>"

text \<open>\<open>remove_duplicates\<close> (lines 165 to 170); \<open>not in\<close> compares with \<open>__eq__\<close>.\<close>

fun remove_duplicates_loop :: "'a list \<Rightarrow> 'a list \<Rightarrow> 'a list" where
  "remove_duplicates_loop unique_list [] = unique_list"
| "remove_duplicates_loop unique_list (number # rest) =
     (if number \<notin> set unique_list then remove_duplicates_loop (unique_list @ [number]) rest
      else remove_duplicates_loop unique_list rest)"

definition remove_duplicates :: "'a list \<Rightarrow> 'a list" where
  "remove_duplicates duplicates = remove_duplicates_loop [] duplicates"

text \<open>
  \<open>get_nearby_cells\<close> (lines 173 to 179). \<open>range(c - 1, c + 2)\<close> is \<open>[c - 1..c + 1]\<close>;
  the bounds test is against \<open>range(0, 8)\<close>, whatever \<open>self.height\<close> and \<open>self.width\<close> are.
\<close>

definition in_range_0_8 :: "int \<Rightarrow> bool" where
  "in_range_0_8 x = (0 \<le> x \<and> x < 8)"

definition get_nearby_cells :: "minesweeper_ai \<Rightarrow> cell \<Rightarrow> cell list" where
  "get_nearby_cells self cell =
     concat (map (\<lambda>x. concat (map (\<lambda>y.
         if \<not> in_range_0_8 x \<or> \<not> in_range_0_8 y then []
         else if (x, y) \<noteq> cell then [(x, y)] else [])
       [snd cell - 1..snd cell + 1]))
     [fst cell - 1..fst cell + 1])"

text \<open>
  \<open>add_knowledge\<close>, first part (lines 182 to 204): record the move, mark the cell safe,
  build the new sentence, derive sentences by subtraction, append, deduplicate.
\<close>

definition additional_sentences :: "sentence \<Rightarrow> sentence list \<Rightarrow> sentence list" where
  "additional_sentences sentence ks =
     concat (map (\<lambda>knowledge.
         if cells sentence \<subseteq> cells knowledge then [Sentence_sub knowledge sentence]
         else if cells knowledge \<subseteq> cells sentence then [Sentence_sub sentence knowledge]
         else [])
       ks)"

fun append_additional :: "sentence list \<Rightarrow> sentence list \<Rightarrow> sentence list" where
  "append_additional ks [] = ks"
| "append_additional ks (additional # rest) =
     append_additional (if additional \<notin> set ks then ks @ [additional] else ks) rest"

definition extend_knowledge :: "minesweeper_ai \<Rightarrow> cell \<Rightarrow> int \<Rightarrow> minesweeper_ai" where
  "extend_knowledge self cell n =
     (let self1 = self\<lparr>moves_made := insert cell (moves_made self)\<rparr>;
          self2 = mark_safe self1 cell;
          free_neighbours = filter (\<lambda>x. x \<notin> moves_made self2) (get_nearby_cells self2 cell);
          sentence = Sentence (set free_neighbours) n;
          additional = additional_sentences sentence (knowledge self2);
          ks = append_additional (knowledge self2) additional @ [sentence]
      in self2\<lparr>knowledge := remove_duplicates ks\<rparr>)"

text \<open>
  \<open>add_knowledge\<close>, second part (lines 206 to 219). \<open>new_knowledge\<close> is a deep copy, so
  \<open>self.mark_mine\<close> and \<open>self.mark_safe\<close> change the sentences of the old list
  \<open>self.knowledge\<close> and leave \<open>new_knowledge\<close> alone; line 219 then replaces the old list.
  The \<open>for\<close> loop walks \<open>new_knowledge\<close> by index while \<open>remove\<close> shortens it.
  \<open>list.remove\<close> deletes the first equal element and raises \<open>ValueError\<close> when there is
  none. The marks of one sentence commute, so the set is walked in sorted order.
\<close>

definition list_remove :: "'a \<Rightarrow> 'a list \<Rightarrow> error + 'a list" where
  "list_remove x xs = (if x \<in> set xs then Inr (remove1 x xs) else Inl ValueError)"

definition resolve_mines ::
  "sentence \<Rightarrow> sentence list \<Rightarrow> minesweeper_ai \<Rightarrow> error + sentence list \<times> minesweeper_ai" where
  "resolve_mines sentence new_knowledge self =
     (if truthy (known_mines sentence) then
        (case list_remove sentence new_knowledge of
           Inl e \<Rightarrow> Inl e
         | Inr nk \<Rightarrow>
             (case known_mines sentence of
                None \<Rightarrow> Inl TypeError
              | Some ms \<Rightarrow> Inr (nk, fold (\<lambda>mine a. mark_mine a mine) (sorted_list_of_set ms) self)))
      else Inr (new_knowledge, self))"

definition resolve_safes ::
  "sentence \<Rightarrow> sentence list \<Rightarrow> minesweeper_ai \<Rightarrow> error + sentence list \<times> minesweeper_ai" where
  "resolve_safes sentence new_knowledge self =
     (if truthy (known_safes sentence) then
        (case list_remove sentence new_knowledge of
           Inl e \<Rightarrow> Inl e
         | Inr nk \<Rightarrow>
             (case known_safes sentence of
                None \<Rightarrow> Inl TypeError
              | Some ss \<Rightarrow> Inr (nk, fold (\<lambda>safe a. mark_safe a safe) (sorted_list_of_set ss) self)))
      else Inr (new_knowledge, self))"

function sweep ::
  "nat \<Rightarrow> sentence list \<Rightarrow> minesweeper_ai \<Rightarrow> error + sentence list \<times> minesweeper_ai" where
  "sweep i new_knowledge self =
     (if i < length new_knowledge then
        (case resolve_mines (new_knowledge ! i) new_knowledge self of
           Inl e \<Rightarrow> Inl e
         | Inr (nk1, self1) \<Rightarrow>
             (case resolve_safes (new_knowledge ! i) nk1 self1 of
                Inl e \<Rightarrow> Inl e
              | Inr (nk2, self2) \<Rightarrow> sweep (i + 1) nk2 self2))
      else Inr (new_knowledge, self))"
  by pat_completeness auto
termination
proof (relation "measure (\<lambda>(i, nk, self). length nk - i)", goal_cases)
  case 1
  show ?case by simp
next
  case (2 i new_knowledge self x nk1 self1 y nk2 self2)
  have "length nk1 \<le> length new_knowledge"
    using 2(2,3)
    by (auto simp: resolve_mines_def list_remove_def length_remove1
        split: if_splits sum.splits option.splits)
  moreover have "length nk2 \<le> length nk1"
    using 2(4,5)
    by (auto simp: resolve_safes_def list_remove_def length_remove1
        split: if_splits sum.splits option.splits)
  ultimately show ?case using 2(1) by simp
qed

definition closure :: "minesweeper_ai \<Rightarrow> error + minesweeper_ai" where
  "closure self =
     (case sweep 0 (knowledge self) self of
        Inl e \<Rightarrow> Inl e
      | Inr (new_knowledge, self') \<Rightarrow> Inr (self'\<lparr>knowledge := new_knowledge\<rparr>))"

definition add_knowledge :: "minesweeper_ai \<Rightarrow> cell \<Rightarrow> int \<Rightarrow> error + minesweeper_ai" where
  "add_knowledge self cell n = closure (extend_knowledge self cell n)"

text \<open>
  \<open>make_safe_move\<close> (lines 222 to 226) returns the first element of \<open>list(set)\<close>, whose
  order Python does not specify: the model gives the set of values the call may return.
\<close>

definition make_safe_move :: "minesweeper_ai \<Rightarrow> cell option set" where
  "make_safe_move self =
     (let safe_moves = safes self - moves_made self
      in if safe_moves \<noteq> {} then Some ` safe_moves else {None})"

text \<open>
  \<open>make_random_move\<close> (lines 228 to 233). \<open>int(x / self.width)\<close> truncates the quotient
  towards zero (\<open>sdiv\<close>), \<open>x % self.height\<close> is Python's floored remainder (\<open>mod\<close>).
  \<open>random.choice\<close> raises \<open>IndexError\<close> on an empty list; the model gives the set of
  possible outcomes of the call.
\<close>

definition all_cells :: "minesweeper_ai \<Rightarrow> cell set" where
  "all_cells self =
     set (map (\<lambda>x. (x sdiv width self, x mod height self)) [0..width self * height self - 1])"

definition make_random_move :: "minesweeper_ai \<Rightarrow> (error + cell option) set" where
  "make_random_move self =
     (let possible = all_cells self - moves_made self - mines self
      in if int (card (mines self)) < MINE_COUNT self then
           (if possible = {} then {Inl IndexError} else (\<lambda>c. Inr (Some c)) ` possible)
         else {Inr None})"

subsection \<open>Sequences of engine operations\<close>

datatype operation = Add_knowledge cell int | Mark_mine cell | Mark_safe cell

fun apply_operation :: "minesweeper_ai \<Rightarrow> operation \<Rightarrow> error + minesweeper_ai" where
  "apply_operation self (Add_knowledge cell n) = add_knowledge self cell n"
| "apply_operation self (Mark_mine cell) = Inr (mark_mine self cell)"
| "apply_operation self (Mark_safe cell) = Inr (mark_safe self cell)"

fun run :: "minesweeper_ai \<Rightarrow> operation list \<Rightarrow> error + minesweeper_ai" where
  "run self [] = Inr self"
| "run self (op # ops) =
     (case apply_operation self op of Inl e \<Rightarrow> Inl e | Inr self' \<Rightarrow> run self' ops)"

subsection \<open>Predicates used to state the properties\<close>

text \<open>Every set of a Python state is finite.\<close>

definition finite_state :: "minesweeper_ai \<Rightarrow> bool" where
  "finite_state self =
     (finite (moves_made self) \<and> finite (mines self) \<and> finite (safes self) \<and>
      (\<forall>s\<in>set (knowledge self). finite (cells s)))"

text \<open>The constraint invariant of the specification: \<open>0 \<le> count \<le> |cells|\<close>.\<close>

definition count_in_range :: "sentence \<Rightarrow> bool" where
  "count_in_range s = (0 \<le> count s \<and> count s \<le> int (card (cells s)))"

text \<open>A sentence is true of a mine placement \<open>M\<close>: exactly \<open>count\<close> of its cells are mines.\<close>

definition sentence_true :: "cell set \<Rightarrow> sentence \<Rightarrow> bool" where
  "sentence_true M s = (finite (cells s) \<and> count s = int (card (cells s \<inter> M)))"

text \<open>
  An operation is truthful for a mine placement \<open>M\<close>: an observed cell is no mine and its
  count is the number of mines among the neighbours \<open>get_nearby_cells\<close> computes; a cell
  is marked as what it is.
\<close>

fun truthful :: "cell set \<Rightarrow> minesweeper_ai \<Rightarrow> operation \<Rightarrow> bool" where
  "truthful M self (Add_knowledge cell n) =
     (cell \<notin> M \<and> n = int (card (set (get_nearby_cells self cell) \<inter> M)))"
| "truthful M self (Mark_mine cell) = (cell \<in> M)"
| "truthful M self (Mark_safe cell) = (cell \<notin> M)"

definition sound :: "cell set \<Rightarrow> minesweeper_ai \<Rightarrow> bool" where
  "sound M self =
     (moves_made self \<inter> M = {} \<and> mines self \<subseteq> M \<and> safes self \<inter> M = {} \<and>
      (\<forall>s\<in>set (knowledge self). sentence_true M s))"

text \<open>No sentence held mentions a cell that has been moved on.\<close>

definition moves_purged :: "minesweeper_ai \<Rightarrow> bool" where
  "moves_purged self = (\<forall>s\<in>set (knowledge self). cells s \<inter> moves_made self = {})"

text \<open>A sentence the closure loop would resolve when it looks at it.\<close>

definition resolvable :: "sentence \<Rightarrow> bool" where
  "resolvable s = (truthy (known_mines s) \<or> truthy (known_safes s))"


text \<open>The grid neighbours of a cell on a board of the given height and width.\<close>

definition grid_neighbours :: "int \<Rightarrow> int \<Rightarrow> cell \<Rightarrow> cell set" where
  "grid_neighbours h w cell =
     {(x, y). \<bar>x - fst cell\<bar> \<le> 1 \<and> \<bar>y - snd cell\<bar> \<le> 1 \<and> (x, y) \<noteq> cell \<and>
              0 \<le> x \<and> x < h \<and> 0 \<le> y \<and> y < w}"

section \<open>Properties\<close>

declare sweep.simps [simp del]

lemma set_remove_duplicates_loop:
  "set (remove_duplicates_loop u xs) = set u \<union> set xs"
  by (induction u xs rule: remove_duplicates_loop.induct) auto

lemma distinct_remove_duplicates_loop:
  "distinct u \<Longrightarrow> distinct (remove_duplicates_loop u xs)"
  by (induction u xs rule: remove_duplicates_loop.induct) auto

lemma set_remove_duplicates: "set (remove_duplicates xs) = set xs"
  by (simp add: remove_duplicates_def set_remove_duplicates_loop)

lemma distinct_remove_duplicates: "distinct (remove_duplicates xs)"
  by (simp add: remove_duplicates_def distinct_remove_duplicates_loop)

lemma set_append_additional: "set (append_additional ks adds) = set ks \<union> set adds"
  by (induction adds arbitrary: ks) auto

lemma truthy_known_mines:
  "truthy (known_mines s) \<longleftrightarrow> count s = int (card (cells s)) \<and> cells s \<noteq> {}"
  by (simp add: truthy_def known_mines_def)

lemma truthy_known_safes:
  "truthy (known_safes s) \<longleftrightarrow> count s = 0 \<and> cells s \<noteq> {}"
  by (simp add: truthy_def known_safes_def)

lemma mines_fold_mark_mine:
  "mines (fold (\<lambda>mine a. mark_mine a mine) xs a) = mines a \<union> set xs"
  by (induction xs arbitrary: a) (auto simp: mark_mine_def)

lemma safes_fold_mark_mine:
  "safes (fold (\<lambda>mine a. mark_mine a mine) xs a) = safes a"
  by (induction xs arbitrary: a) (auto simp: mark_mine_def)

lemma moves_fold_mark_mine:
  "moves_made (fold (\<lambda>mine a. mark_mine a mine) xs a) = moves_made a"
  by (induction xs arbitrary: a) (auto simp: mark_mine_def)

lemma safes_fold_mark_safe:
  "safes (fold (\<lambda>safe a. mark_safe a safe) xs a) = safes a \<union> set xs"
  by (induction xs arbitrary: a) (auto simp: mark_safe_def)

lemma mines_fold_mark_safe:
  "mines (fold (\<lambda>safe a. mark_safe a safe) xs a) = mines a"
  by (induction xs arbitrary: a) (auto simp: mark_safe_def)

lemma moves_fold_mark_safe:
  "moves_made (fold (\<lambda>safe a. mark_safe a safe) xs a) = moves_made a"
  by (induction xs arbitrary: a) (auto simp: mark_safe_def)

lemma resolve_mines_Inr:
  assumes "resolve_mines s nk a = Inr (nk1, a1)"
  shows "(\<not> truthy (known_mines s) \<and> nk1 = nk \<and> a1 = a) \<or>
         (truthy (known_mines s) \<and> s \<in> set nk \<and> nk1 = remove1 s nk \<and>
          a1 = fold (\<lambda>mine a. mark_mine a mine) (sorted_list_of_set (cells s)) a)"
  using assms
  by (auto simp: resolve_mines_def list_remove_def known_mines_def
      split: if_splits sum.splits option.splits)

lemma resolve_safes_Inr:
  assumes "resolve_safes s nk a = Inr (nk1, a1)"
  shows "(\<not> truthy (known_safes s) \<and> nk1 = nk \<and> a1 = a) \<or>
         (truthy (known_safes s) \<and> s \<in> set nk \<and> nk1 = remove1 s nk \<and>
          a1 = fold (\<lambda>safe a. mark_safe a safe) (sorted_list_of_set (cells s)) a)"
  using assms
  by (auto simp: resolve_safes_def list_remove_def known_safes_def
      split: if_splits sum.splits option.splits)

lemma sweep_invariant:
  assumes "sweep i nk a = Inr (nk', a')"
    and "Q nk a"
    and "\<And>s nk a nk1 a1. Q nk a \<Longrightarrow> resolve_mines s nk a = Inr (nk1, a1) \<Longrightarrow> Q nk1 a1"
    and "\<And>s nk a nk1 a1. Q nk a \<Longrightarrow> resolve_safes s nk a = Inr (nk1, a1) \<Longrightarrow> Q nk1 a1"
  shows "Q nk' a'"
  using assms(1,2)
proof (induction i nk a rule: sweep.induct)
  case (1 i nk a)
  show ?case
  proof (cases "i < length nk")
    case False
    with 1(2,3) show ?thesis by (simp add: sweep.simps)
  next
    case True
    from 1(2) True obtain nk1 a1 nk2 a2 where
      m: "resolve_mines (nk ! i) nk a = Inr (nk1, a1)" and
      s: "resolve_safes (nk ! i) nk1 a1 = Inr (nk2, a2)" and
      r: "sweep (i + 1) nk2 a2 = Inr (nk', a')"
      by (subst (asm) sweep.simps) (auto split: sum.splits)
    have "Q nk1 a1" using assms(3) [OF 1(3) m] .
    then have "Q nk2 a2" using assms(4) s by blast
    with 1(1) [OF True m refl s refl r] show ?thesis .
  qed
qed

lemma sweep_total:
  assumes "\<forall>s\<in>set nk. finite (cells s)"
  shows "\<exists>r. sweep i nk a = Inr r"
  using assms
proof (induction i nk a rule: sweep.induct)
  case (1 i nk a)
  show ?case
  proof (cases "i < length nk")
    case False
    then show ?thesis by (simp add: sweep.simps)
  next
    case True
    let ?s = "nk ! i"
    have in_nk: "?s \<in> set nk" using True by simp
    have "\<exists>r. resolve_mines ?s nk a = Inr r"
      using in_nk
      by (auto simp: resolve_mines_def list_remove_def known_mines_def truthy_def
          split: if_splits)
    then obtain nk1 a1 where m: "resolve_mines ?s nk a = Inr (nk1, a1)"
      by (metis surj_pair)
    note m' = resolve_mines_Inr [OF m]
    have fin: "finite (cells ?s)" using 1(2) in_nk by blast
    have excl: "truthy (known_safes ?s) \<Longrightarrow> \<not> truthy (known_mines ?s)"
      using fin by (auto simp: truthy_known_mines truthy_known_safes)
    have "\<exists>r. resolve_safes ?s nk1 a1 = Inr r"
    proof (cases "truthy (known_safes ?s)")
      case True
      with excl m' have "nk1 = nk" by blast
      with True show ?thesis using in_nk
        by (auto simp: resolve_safes_def list_remove_def known_safes_def truthy_def
            split: if_splits)
    next
      case False
      then show ?thesis by (simp add: resolve_safes_def)
    qed
    then obtain nk2 a2 where s: "resolve_safes ?s nk1 a1 = Inr (nk2, a2)"
      by (metis surj_pair)
    note s' = resolve_safes_Inr [OF s]
    have "set nk2 \<subseteq> set nk"
      using m' s' by (auto dest: notin_set_remove1 set_remove1_subset [THEN subsetD])
    then have "\<forall>s\<in>set nk2. finite (cells s)" using 1(2) by blast
    from 1(1) [OF True m refl s refl this] obtain r where "sweep (i + 1) nk2 a2 = Inr r" ..
    then show ?thesis using True m s by (subst sweep.simps) simp
  qed
qed

lemma resolve_mines_fields:
  assumes "resolve_mines s nk a = Inr (nk1, a1)"
  shows "moves_made a1 = moves_made a" and "safes a1 = safes a" and "mines a \<subseteq> mines a1"
    and "set nk1 \<subseteq> set nk" and "distinct nk \<Longrightarrow> distinct nk1"
  using resolve_mines_Inr [OF assms]
  by (auto simp: moves_fold_mark_mine safes_fold_mark_mine mines_fold_mark_mine
      dest: set_remove1_subset [THEN subsetD])

lemma resolve_safes_fields:
  assumes "resolve_safes s nk a = Inr (nk1, a1)"
  shows "moves_made a1 = moves_made a" and "mines a1 = mines a" and "safes a \<subseteq> safes a1"
    and "set nk1 \<subseteq> set nk" and "distinct nk \<Longrightarrow> distinct nk1"
  using resolve_safes_Inr [OF assms]
  by (auto simp: moves_fold_mark_safe mines_fold_mark_safe safes_fold_mark_safe
      dest: set_remove1_subset [THEN subsetD])

lemma sweep_fields:
  assumes "sweep i nk a = Inr (nk', a')"
  shows "moves_made a' = moves_made a \<and> mines a \<subseteq> mines a' \<and> safes a \<subseteq> safes a' \<and>
         set nk' \<subseteq> set nk \<and> (distinct nk \<longrightarrow> distinct nk')"
proof -
  let ?Q = "\<lambda>k b. moves_made b = moves_made a \<and> mines a \<subseteq> mines b \<and> safes a \<subseteq> safes b \<and>
                   set k \<subseteq> set nk \<and> (distinct nk \<longrightarrow> distinct k)"
  have "?Q nk' a'"
  proof (rule sweep_invariant [OF assms, where Q = ?Q], goal_cases)
    case 1
    show ?case by simp
  next
    case (2 s k b k1 b1)
    from resolve_mines_fields [OF 2(2)] 2(1) show ?case by auto
  next
    case (3 s k b k1 b1)
    from resolve_safes_fields [OF 3(2)] 3(1) show ?case by auto
  qed
  then show ?thesis .
qed

lemma closure_total:
  assumes "\<forall>s\<in>set (knowledge a). finite (cells s)"
  shows "\<exists>a'. closure a = Inr a'"
proof -
  from sweep_total [OF assms] obtain r where "sweep 0 (knowledge a) a = Inr r" by blast
  then show ?thesis by (cases r) (simp add: closure_def)
qed

lemma closure_fields:
  assumes "closure a = Inr a'"
  shows "moves_made a' = moves_made a" and "mines a \<subseteq> mines a'" and "safes a \<subseteq> safes a'"
    and "set (knowledge a') \<subseteq> set (knowledge a)"
    and "distinct (knowledge a) \<Longrightarrow> distinct (knowledge a')"
proof -
  from assms obtain nk b where sw: "sweep 0 (knowledge a) a = Inr (nk, b)"
    and a': "a' = b\<lparr>knowledge := nk\<rparr>"
    by (auto simp: closure_def split: sum.splits)
  note f = sweep_fields [OF sw]
  show "moves_made a' = moves_made a" using f a' by simp
  show "mines a \<subseteq> mines a'" using f a' by simp
  show "safes a \<subseteq> safes a'" using f a' by simp
  show "set (knowledge a') \<subseteq> set (knowledge a)" using f a' by simp
  show "distinct (knowledge a) \<Longrightarrow> distinct (knowledge a')" using f a' by simp
qed

lemma finite_cells_Sentence_mark_safe:
  "finite (cells s) \<Longrightarrow> finite (cells (Sentence_mark_safe s c))"
  by (simp add: Sentence_mark_safe_def)

lemma finite_cells_Sentence_mark_mine:
  "finite (cells s) \<Longrightarrow> finite (cells (Sentence_mark_mine s c))"
  by (simp add: Sentence_mark_mine_def)

lemma set_additional_sentences:
  "set (additional_sentences s ks) \<subseteq>
     (\<lambda>k. Sentence_sub k s) ` {k \<in> set ks. cells s \<subseteq> cells k} \<union>
     (\<lambda>k. Sentence_sub s k) ` {k \<in> set ks. cells k \<subseteq> cells s}"
  by (auto simp: additional_sentences_def split: if_splits)

lemma extend_knowledge_fields:
  "moves_made (extend_knowledge a c n) = insert c (moves_made a)"
  "safes (extend_knowledge a c n) = insert c (safes a)"
  "mines (extend_knowledge a c n) = mines a"
  "distinct (knowledge (extend_knowledge a c n))"
  by (simp_all add: extend_knowledge_def Let_def mark_safe_def distinct_remove_duplicates)

lemma set_knowledge_extend:
  "set (knowledge (extend_knowledge a c n)) =
     (let ks = map (\<lambda>s. Sentence_mark_safe s c) (knowledge a);
          sentence = Sentence (set (get_nearby_cells a c) - insert c (moves_made a)) n
      in set ks \<union> set (additional_sentences sentence ks) \<union> {sentence})"
proof -
  have "get_nearby_cells (mark_safe (a\<lparr>moves_made := insert c (moves_made a)\<rparr>) c) c =
        get_nearby_cells a c"
    by (simp add: get_nearby_cells_def)
  moreover have "set (filter (\<lambda>x. x \<notin> insert c (moves_made a)) xs) =
                 set xs - insert c (moves_made a)" for xs
    by auto
  ultimately show ?thesis
    by (simp add: extend_knowledge_def Let_def mark_safe_def set_remove_duplicates
        set_append_additional Un_commute del: set_filter)
qed

lemma finite_knowledge_extend:
  assumes "\<forall>s\<in>set (knowledge a). finite (cells s)"
  shows "\<forall>s\<in>set (knowledge (extend_knowledge a c n)). finite (cells s)"
proof
  fix s assume "s \<in> set (knowledge (extend_knowledge a c n))"
  then show "finite (cells s)"
    using assms set_additional_sentences
      [of "Sentence (set (get_nearby_cells a c) - insert c (moves_made a)) n"
          "map (\<lambda>s. Sentence_mark_safe s c) (knowledge a)"]
    by (auto simp: set_knowledge_extend Let_def Sentence_def Sentence_sub_def
        finite_cells_Sentence_mark_safe)
qed

lemma add_knowledge_total:
  assumes "finite_state a"
  shows "\<exists>a'. add_knowledge a c n = Inr a'"
  unfolding add_knowledge_def
  using assms by (intro closure_total finite_knowledge_extend) (simp add: finite_state_def)

subsection \<open>Order of the marks\<close>

text \<open>
  Marking the cells of a list one after the other adds them to the set of known cells and
  takes them out of every sentence; the result depends on the set of the cells only, not on
  the order in which Python walks it.
\<close>

lemma fold_Sentence_mark_mine:
  "fold (\<lambda>c s. Sentence_mark_mine s c) xs s =
     s\<lparr>cells := cells s - set xs, count := count s - int (card (cells s \<inter> set xs))\<rparr>"
proof (induction xs arbitrary: s)
  case Nil
  show ?case by simp
next
  case (Cons x xs)
  let ?F = "\<lambda>c s. Sentence_mark_mine s c"
  have step: "fold ?F (x # xs) s = fold ?F xs (Sentence_mark_mine s x)" by simp
  show ?case
  proof (cases "x \<in> cells s")
    case False
    then have m: "Sentence_mark_mine s x = s" by (simp add: Sentence_mark_mine_def)
    have "cells s \<inter> set (x # xs) = cells s \<inter> set xs" and "cells s - set (x # xs) = cells s - set xs"
      using False by auto
    then show ?thesis unfolding step m Cons.IH by simp
  next
    case True
    then have m: "Sentence_mark_mine s x = s\<lparr>cells := cells s - {x}, count := count s - 1\<rparr>"
      by (simp add: Sentence_mark_mine_def)
    have e: "cells s \<inter> set (x # xs) = insert x ((cells s - {x}) \<inter> set xs)"
      using True by auto
    have c: "card (cells s \<inter> set (x # xs)) = Suc (card ((cells s - {x}) \<inter> set xs))"
      unfolding e by (rule card_insert_disjoint) simp_all
    have d: "cells s - {x} - set xs = cells s - set (x # xs)" by auto
    show ?thesis unfolding step m Cons.IH using c d by simp
  qed
qed

lemma fold_Sentence_mark_safe:
  "fold (\<lambda>c s. Sentence_mark_safe s c) xs s = s\<lparr>cells := cells s - set xs\<rparr>"
proof (induction xs arbitrary: s)
  case Nil
  show ?case by simp
next
  case (Cons x xs)
  let ?F = "\<lambda>c s. Sentence_mark_safe s c"
  have step: "fold ?F (x # xs) s = fold ?F xs (Sentence_mark_safe s x)" by simp
  have m: "Sentence_mark_safe s x = s\<lparr>cells := cells s - {x}\<rparr>"
    by (cases "x \<in> cells s") (simp_all add: Sentence_mark_safe_def)
  have d: "cells s - {x} - set xs = cells s - set (x # xs)" by auto
  show ?case unfolding step m Cons.IH using d by simp
qed

lemma fold_mark_mine:
  "fold (\<lambda>mine a. mark_mine a mine) xs a =
     a\<lparr>mines := mines a \<union> set xs,
       knowledge := map (fold (\<lambda>c s. Sentence_mark_mine s c) xs) (knowledge a)\<rparr>"
proof (induction xs arbitrary: a)
  case Nil
  show ?case by simp
next
  case (Cons x xs)
  let ?F = "\<lambda>mine a. mark_mine a mine"
  have step: "fold ?F (x # xs) a = fold ?F xs (mark_mine a x)" by simp
  show ?case unfolding step Cons.IH by (simp add: mark_mine_def)
qed

lemma fold_mark_safe:
  "fold (\<lambda>safe a. mark_safe a safe) xs a =
     a\<lparr>safes := safes a \<union> set xs,
       knowledge := map (fold (\<lambda>c s. Sentence_mark_safe s c) xs) (knowledge a)\<rparr>"
proof (induction xs arbitrary: a)
  case Nil
  show ?case by simp
next
  case (Cons x xs)
  let ?F = "\<lambda>safe a. mark_safe a safe"
  have step: "fold ?F (x # xs) a = fold ?F xs (mark_safe a x)" by simp
  show ?case unfolding step Cons.IH by (simp add: mark_safe_def)
qed

lemma marks_order_irrelevant:
  assumes "set xs = set ys"
  shows "fold (\<lambda>mine a. mark_mine a mine) xs a = fold (\<lambda>mine a. mark_mine a mine) ys a"
    and "fold (\<lambda>safe a. mark_safe a safe) xs a = fold (\<lambda>safe a. mark_safe a safe) ys a"
  unfolding fold_mark_mine fold_mark_safe fold_Sentence_mark_mine fold_Sentence_mark_safe
  using assms by simp_all

subsection \<open>Neighbours\<close>

text \<open>
  Whatever height and width the engine was built with, \<open>get_nearby_cells\<close> returns the
  neighbours of the cell on an 8 by 8 board.
\<close>

lemma set_get_nearby_cells:
  "set (get_nearby_cells self cell) = grid_neighbours 8 8 cell"
  by (cases cell) (auto simp: get_nearby_cells_def grid_neighbours_def in_range_0_8_def)

text \<open>
  Claim C4 says the neighbours lie within the configured bounds. On an engine built with
  height 3 and width 3, the neighbours computed for the corner \<open>(2, 2)\<close> are these eight
  cells, five of them outside the 3 by 3 board.
\<close>

theorem get_nearby_cells_ignores_configuration:
  "get_nearby_cells (MinesweeperAI 3 3) (2, 2) =
     [(1, 1), (1, 2), (1, 3), (2, 1), (2, 3), (3, 1), (3, 2), (3, 3)]"
  by code_simp

text \<open>So \<open>(3, 3)\<close> is returned, and it is no neighbour on the 3 by 3 board.\<close>

theorem get_nearby_cells_ignores_configuration_witness:
  "(3, 3) \<in> set (get_nearby_cells (MinesweeperAI 3 3) (2, 2)) \<and>
   (3, 3) \<notin> grid_neighbours 3 3 (2, 2)"
  using get_nearby_cells_ignores_configuration by (simp add: grid_neighbours_def)

text \<open>On a 10 by 10 board a neighbour beyond row and column 7 is missing.\<close>

lemma get_nearby_cells_misses_large_board:
  "(9, 9) \<in> grid_neighbours 10 10 (8, 8) \<and> (9, 9) \<notin> set (get_nearby_cells (MinesweeperAI 10 10) (8, 8))"
  by (simp add: set_get_nearby_cells grid_neighbours_def)

subsection \<open>Safe moves\<close>

text \<open>
  Claim C8 says the cell \<open>make_safe_move\<close> returns is never in \<open>mines\<close>. After
  \<open>mark_mine((4, 4))\<close> and \<open>mark_safe((4, 4))\<close> the only value the call can return is
  \<open>(4, 4)\<close>, a cell of \<open>mines\<close>.
\<close>

theorem make_safe_move_counterexample:
  "make_safe_move (mark_safe (mark_mine (MinesweeperAI 8 8) (4, 4)) (4, 4)) = {Some (4, 4)} \<and>
   (4, 4) \<in> mines (mark_safe (mark_mine (MinesweeperAI 8 8) (4, 4)) (4, 4))"
  by (simp add: make_safe_move_def mark_safe_def mark_mine_def MinesweeperAI_def)

text \<open>
  Claim C8, amended. \<open>make_safe_move\<close> returns \<open>None\<close> exactly when
  \<open>safes - moves_made\<close> is empty, and otherwise a cell of \<open>safes - moves_made\<close>; the
  cell is outside \<open>mines\<close> when \<open>mines\<close> and \<open>safes\<close> are disjoint.
\<close>

theorem make_safe_move_sound:
  "(None \<in> make_safe_move self \<longleftrightarrow> safes self - moves_made self = {}) \<and>
   (safes self - moves_made self = {} \<longrightarrow> make_safe_move self = {None}) \<and>
   (safes self - moves_made self \<noteq> {} \<longrightarrow>
      make_safe_move self = Some ` (safes self - moves_made self)) \<and>
   (\<forall>c. Some c \<in> make_safe_move self \<longrightarrow>
      c \<in> safes self \<and> c \<notin> moves_made self \<and> (mines self \<inter> safes self = {} \<longrightarrow> c \<notin> mines self))"
  by (auto simp: make_safe_move_def Let_def)

text \<open>After \<open>mark_safe((4, 4))\<close> on a new engine the move is \<open>(4, 4)\<close>; before, \<open>None\<close>.\<close>

theorem make_safe_move_sound_witness:
  "make_safe_move (mark_safe (MinesweeperAI 8 8) (4, 4)) = {Some (4, 4)} \<and>
   mines (mark_safe (MinesweeperAI 8 8) (4, 4)) \<inter> safes (mark_safe (MinesweeperAI 8 8) (4, 4)) = {} \<and>
   (4, 4) \<in> safes (mark_safe (MinesweeperAI 8 8) (4, 4)) \<and>
   (4, 4) \<notin> moves_made (mark_safe (MinesweeperAI 8 8) (4, 4)) \<and>
   (4, 4) \<notin> mines (mark_safe (MinesweeperAI 8 8) (4, 4)) \<and>
   make_safe_move (MinesweeperAI 8 8) = {None}"
proof -
  let ?a = "mark_safe (MinesweeperAI 8 8) (4, 4)"
  have d: "mines ?a \<inter> safes ?a = {}" and n: "safes ?a - moves_made ?a \<noteq> {}"
    by (simp_all add: mark_safe_def MinesweeperAI_def)
  have e: "safes (MinesweeperAI 8 8) - moves_made (MinesweeperAI 8 8) = {}"
    by (simp add: MinesweeperAI_def)
  have r: "make_safe_move ?a = {Some (4, 4)}"
    using make_safe_move_sound [of ?a] n by (simp add: mark_safe_def MinesweeperAI_def)
  then have "Some (4, 4) \<in> make_safe_move ?a" by simp
  with make_safe_move_sound [of ?a] d
  have "(4, 4) \<in> safes ?a \<and> (4, 4) \<notin> moves_made ?a \<and> (4, 4) \<notin> mines ?a" by blast
  moreover have "make_safe_move (MinesweeperAI 8 8) = {None}"
    using make_safe_move_sound [of "MinesweeperAI 8 8"] e by blast
  ultimately show ?thesis using r d by blast
qed

subsection \<open>Subtraction of sentences\<close>

lemma sentence_true_sub:
  assumes "cells A \<subseteq> cells B" and "sentence_true M A" and "sentence_true M B"
  shows "sentence_true M (Sentence_sub B A)"
proof -
  have fin: "finite (cells B)" using assms(3) by (simp add: sentence_true_def)
  have "(cells B - cells A) \<inter> M = (cells B \<inter> M) - (cells A \<inter> M)" by blast
  moreover have "cells A \<inter> M \<subseteq> cells B \<inter> M" using assms(1) by blast
  moreover have "finite (cells A \<inter> M)" using assms(2) by (simp add: sentence_true_def)
  ultimately have "card ((cells B - cells A) \<inter> M) = card (cells B \<inter> M) - card (cells A \<inter> M)"
    by (simp add: card_Diff_subset)
  moreover have "card (cells A \<inter> M) \<le> card (cells B \<inter> M)"
    using assms(1) fin by (intro card_mono) auto
  ultimately show ?thesis
    using assms(2,3) fin by (simp add: sentence_true_def Sentence_sub_def Sentence_def)
qed

lemma sentence_true_count_in_range:
  assumes "sentence_true M s"
  shows "count_in_range s"
proof -
  have "card (cells s \<inter> M) \<le> card (cells s)"
    using assms by (intro card_mono) (auto simp: sentence_true_def)
  then show ?thesis using assms by (simp add: sentence_true_def count_in_range_def)
qed

text \<open>
  Claim C7 says that \<open>B - A\<close> satisfies \<open>0 \<le> count \<le> |cells|\<close> when \<open>A\<close> and \<open>B\<close> do and
  the cells of \<open>A\<close> are among those of \<open>B\<close>. For \<open>A = ({(0, 0)}, 1)\<close> and
  \<open>B = ({(0, 0), (0, 1)}, 0)\<close> the difference is \<open>({(0, 1)}, -1)\<close>.
\<close>

theorem Sentence_sub_counterexample:
  "count_in_range \<lparr>cells = {(0, 0)}, count = 1\<rparr> \<and>
   count_in_range \<lparr>cells = {(0, 0), (0, 1)}, count = 0\<rparr> \<and>
   cells \<lparr>cells = {(0, 0)}, count = 1\<rparr> \<subseteq> cells \<lparr>cells = {(0, 0), (0, 1)}, count = 0\<rparr> \<and>
   count (Sentence_sub \<lparr>cells = {(0, 0), (0, 1)}, count = 0\<rparr> \<lparr>cells = {(0, 0)}, count = 1\<rparr>) = - 1 \<and>
   \<not> count_in_range (Sentence_sub \<lparr>cells = {(0, 0), (0, 1)}, count = 0\<rparr> \<lparr>cells = {(0, 0)}, count = 1\<rparr>)"
  by (simp add: count_in_range_def Sentence_sub_def Sentence_def)

text \<open>
  Claim C7, amended. When \<open>A\<close> and \<open>B\<close> are both true of one mine placement \<open>M\<close> and the
  cells of \<open>A\<close> are among those of \<open>B\<close>, then \<open>B - A\<close>, which is
  \<open>(B.cells - A.cells, B.count - A.count)\<close>, is true of \<open>M\<close> as well; so it satisfies
  \<open>0 \<le> count \<le> |cells|\<close>, and its count is 0 when it has no cells.
\<close>

theorem Sentence_sub_sound:
  assumes "cells A \<subseteq> cells B" and "sentence_true M A" and "sentence_true M B"
  shows "cells (Sentence_sub B A) = cells B - cells A \<and>
         count (Sentence_sub B A) = count B - count A \<and>
         sentence_true M (Sentence_sub B A) \<and> count_in_range (Sentence_sub B A) \<and>
         (cells (Sentence_sub B A) = {} \<longrightarrow> count (Sentence_sub B A) = 0)"
proof -
  have t: "sentence_true M (Sentence_sub B A)" using assms by (rule sentence_true_sub)
  then have r: "count_in_range (Sentence_sub B A)" by (rule sentence_true_count_in_range)
  have "cells (Sentence_sub B A) = {} \<longrightarrow> count (Sentence_sub B A) = 0"
    using r by (auto simp: count_in_range_def)
  with t r show ?thesis by (simp add: Sentence_sub_def Sentence_def)
qed

text \<open>The scenario \<open>{A, B, C} = 1\<close> minus \<open>{A, B} = 1\<close> gives \<open>{C} = 0\<close>, with the mine at \<open>B\<close>.\<close>

theorem Sentence_sub_sound_witness:
  "cells \<lparr>cells = {(0, 0), (0, 1)}, count = 1\<rparr> \<subseteq> cells \<lparr>cells = {(0, 0), (0, 1), (1, 1)}, count = 1\<rparr> \<and>
   sentence_true {(0, 1)} \<lparr>cells = {(0, 0), (0, 1)}, count = 1\<rparr> \<and>
   sentence_true {(0, 1)} \<lparr>cells = {(0, 0), (0, 1), (1, 1)}, count = 1\<rparr> \<and>
   Sentence_sub \<lparr>cells = {(0, 0), (0, 1), (1, 1)}, count = 1\<rparr> \<lparr>cells = {(0, 0), (0, 1)}, count = 1\<rparr>
     = \<lparr>cells = {(1, 1)}, count = 0\<rparr> \<and>
   count_in_range (Sentence_sub \<lparr>cells = {(0, 0), (0, 1), (1, 1)}, count = 1\<rparr>
     \<lparr>cells = {(0, 0), (0, 1)}, count = 1\<rparr>)"
proof -
  let ?A = "\<lparr>cells = {(0, 0), (0, 1)}, count = 1\<rparr>"
  let ?B = "\<lparr>cells = {(0, 0), (0, 1), (1, 1)}, count = 1\<rparr>"
  have s: "cells ?A \<subseteq> cells ?B" by simp
  have a: "sentence_true {(0, 1)} ?A" by (simp add: sentence_true_def)
  have b: "sentence_true {(0, 1)} ?B" by (simp add: sentence_true_def)
  have e: "Sentence_sub ?B ?A = \<lparr>cells = {(1, 1)}, count = 0\<rparr>"
    by (auto simp: Sentence_sub_def Sentence_def)
  from Sentence_sub_sound [OF s a b] s a b e show ?thesis by simp
qed

subsection \<open>Random moves\<close>

text \<open>No operation of the engine changes \<open>MINE_COUNT\<close>: it is 8 in every state reached.\<close>

lemma MINE_COUNT_fold_mark_mine:
  "MINE_COUNT (fold (\<lambda>mine a. mark_mine a mine) xs a) = MINE_COUNT a"
  by (induction xs arbitrary: a) (auto simp: mark_mine_def)

lemma MINE_COUNT_fold_mark_safe:
  "MINE_COUNT (fold (\<lambda>safe a. mark_safe a safe) xs a) = MINE_COUNT a"
  by (induction xs arbitrary: a) (auto simp: mark_safe_def)

lemma MINE_COUNT_sweep:
  assumes "sweep i nk a = Inr (nk', a')"
  shows "MINE_COUNT a' = MINE_COUNT a"
proof (rule sweep_invariant [OF assms, where Q = "\<lambda>k b. MINE_COUNT b = MINE_COUNT a"], goal_cases)
  case 1
  show ?case by simp
next
  case (2 s k b k1 b1)
  from resolve_mines_Inr [OF 2(2)] 2(1) show ?case by (auto simp: MINE_COUNT_fold_mark_mine)
next
  case (3 s k b k1 b1)
  from resolve_safes_Inr [OF 3(2)] 3(1) show ?case by (auto simp: MINE_COUNT_fold_mark_safe)
qed

lemma MINE_COUNT_apply_operation:
  assumes "apply_operation a op = Inr a'"
  shows "MINE_COUNT a' = MINE_COUNT a"
proof (cases op)
  case (Add_knowledge c n)
  with assms obtain nk b where
    sw: "sweep 0 (knowledge (extend_knowledge a c n)) (extend_knowledge a c n) = Inr (nk, b)"
    and a': "a' = b\<lparr>knowledge := nk\<rparr>"
    by (auto simp: add_knowledge_def closure_def split: sum.splits)
  from MINE_COUNT_sweep [OF sw] a' show ?thesis
    by (simp add: extend_knowledge_def Let_def mark_safe_def)
next
  case (Mark_mine c)
  with assms show ?thesis by (auto simp: mark_mine_def)
next
  case (Mark_safe c)
  with assms show ?thesis by (auto simp: mark_safe_def)
qed

lemma MINE_COUNT_run:
  "run a ops = Inr a' \<Longrightarrow> MINE_COUNT a' = MINE_COUNT a"
proof (induction ops arbitrary: a)
  case Nil
  then show ?case by simp
next
  case (Cons op ops)
  then show ?case
    by (auto split: sum.splits dest: MINE_COUNT_apply_operation)
qed

lemma MINE_COUNT_reachable:
  "run (MinesweeperAI h w) ops = Inr a \<Longrightarrow> MINE_COUNT a = 8"
  by (drule MINE_COUNT_run) (simp add: MinesweeperAI_def)


text \<open>
  When fewer than 8 mines are known and no cell is left, \<open>random.choice\<close> raises
  \<open>IndexError\<close>: here on a 1 by 1 board whose only cell has been observed.
\<close>

lemma make_random_move_raises:
  "all_cells (projr (add_knowledge (MinesweeperAI 1 1) (0, 0) 0)) -
     moves_made (projr (add_knowledge (MinesweeperAI 1 1) (0, 0) 0)) -
     mines (projr (add_knowledge (MinesweeperAI 1 1) (0, 0) 0)) = {} \<and>
   make_random_move (projr (add_knowledge (MinesweeperAI 1 1) (0, 0) 0)) = {Inl IndexError}"
  by code_simp






subsection \<open>Deduplication\<close>

text \<open>
  Claim C9. From every state \<open>add_knowledge\<close> returns, and the list \<open>self.knowledge\<close> it
  leaves holds no two equal sentences (equal cell sets and equal counts): the closure
  loop only deletes entries of the list \<open>remove_duplicates\<close> built.
\<close>

theorem add_knowledge_no_duplicates:
  assumes "finite_state self"
  shows "\<exists>self'. add_knowledge self cell n = Inr self' \<and> distinct (knowledge self')"
proof -
  from add_knowledge_total [OF assms] obtain self' where r: "add_knowledge self cell n = Inr self'"
    by blast
  then have "closure (extend_knowledge self cell n) = Inr self'"
    by (simp add: add_knowledge_def)
  from closure_fields(5) [OF this] have "distinct (knowledge self')"
    by (simp add: extend_knowledge_fields)
  with r show ?thesis by blast
qed

text \<open>On a new 8 by 8 engine, observing \<open>(0, 0)\<close> with count 1 leaves one sentence.\<close>

theorem add_knowledge_no_duplicates_witness:
  "finite_state (MinesweeperAI 8 8) \<and>
   (\<exists>self'. add_knowledge (MinesweeperAI 8 8) (0, 0) 1 = Inr self' \<and>
            knowledge self' = [\<lparr>cells = {(0, 1), (1, 0), (1, 1)}, count = 1\<rparr>] \<and>
            distinct (knowledge self'))"
proof -
  have h: "finite_state (MinesweeperAI 8 8)"
    by (simp add: finite_state_def MinesweeperAI_def)
  have e: "knowledge (projr (add_knowledge (MinesweeperAI 8 8) (0, 0) 1)) =
           [\<lparr>cells = {(0, 1), (1, 0), (1, 1)}, count = 1\<rparr>]"
    by code_simp
  from add_knowledge_no_duplicates [OF h, of "(0, 0)" 1] e h show ?thesis by auto
qed

subsection \<open>The observed cell\<close>

text \<open>
  Claim C10. After \<open>add_knowledge(c, n)\<close> the cell \<open>c\<close> is in \<open>moves_made\<close> and in
  \<open>safes\<close>, whatever the state and the count; a cell that was in \<open>mines\<close> before the
  call stays there, so it ends in \<open>mines\<close> and \<open>safes\<close> at once.
\<close>

theorem add_knowledge_marks_cell:
  assumes "finite_state self"
  shows "\<exists>self'. add_knowledge self cell n = Inr self' \<and>
           cell \<in> moves_made self' \<and> cell \<in> safes self' \<and>
           (cell \<in> mines self \<longrightarrow> cell \<in> mines self' \<inter> safes self')"
proof -
  from add_knowledge_total [OF assms] obtain self' where r: "add_knowledge self cell n = Inr self'"
    by blast
  then have c: "closure (extend_knowledge self cell n) = Inr self'"
    by (simp add: add_knowledge_def)
  from closure_fields(1-3) [OF c]
  have "cell \<in> moves_made self'" and "cell \<in> safes self'" and "mines self \<subseteq> mines self'"
    by (auto simp: extend_knowledge_fields)
  with r show ?thesis by blast
qed

text \<open>The cell \<open>(2, 3)\<close> is flagged as a mine and then observed.\<close>

theorem add_knowledge_marks_cell_witness:
  "finite_state (mark_mine (MinesweeperAI 8 8) (2, 3)) \<and>
   (2, 3) \<in> mines (mark_mine (MinesweeperAI 8 8) (2, 3)) \<and>
   (\<exists>self'. add_knowledge (mark_mine (MinesweeperAI 8 8) (2, 3)) (2, 3) 0 = Inr self' \<and>
            (2, 3) \<in> moves_made self' \<and> (2, 3) \<in> mines self' \<inter> safes self')"
proof -
  have h: "finite_state (mark_mine (MinesweeperAI 8 8) (2, 3))"
    by (simp add: finite_state_def MinesweeperAI_def mark_mine_def)
  have m: "(2, 3) \<in> mines (mark_mine (MinesweeperAI 8 8) (2, 3))"
    by (simp add: mark_mine_def)
  from add_knowledge_marks_cell [OF h, of "(2, 3)" 0] h m show ?thesis by blast
qed

subsection \<open>Invariants of sequences of operations\<close>

text \<open>
  A property that holds of the starting state and that every operation of the sequence
  keeps, returning a state, holds of the state the sequence ends in.
\<close>

lemma run_invariant:
  assumes "I self"
    and "\<And>a op. I a \<Longrightarrow> op \<in> set ops \<Longrightarrow> \<exists>a'. apply_operation a op = Inr a' \<and> I a'"
  shows "\<exists>st. run self ops = Inr st \<and> I st"
  using assms
proof (induction ops arbitrary: self)
  case Nil
  then show ?case by simp
next
  case (Cons op ops)
  from Cons.prems(2) [OF Cons.prems(1), of op] obtain a' where
    a': "apply_operation self op = Inr a'" and I: "I a'" by auto
  have "\<exists>st. run a' ops = Inr st \<and> I st"
    using I Cons.prems(2) by (intro Cons.IH) auto
  then show ?case using a' by simp
qed

lemma get_nearby_cells_self: "get_nearby_cells a c = get_nearby_cells b c"
  by (simp add: get_nearby_cells_def)

lemma truthful_self: "truthful M a op = truthful M b op"
  by (cases op) (simp_all add: get_nearby_cells_self [of a _ b])

text \<open>The operations keep every set of the state finite.\<close>

lemma finite_sweep:
  assumes "sweep i nk a = Inr (nk', a')" and "finite (mines a)" and "finite (safes a)"
  shows "finite (mines a') \<and> finite (safes a')"
proof (rule sweep_invariant [OF assms(1), where Q = "\<lambda>k b. finite (mines b) \<and> finite (safes b)"],
    goal_cases)
  case 1
  show ?case using assms by simp
next
  case (2 s k b k1 b1)
  from resolve_mines_Inr [OF 2(2)] 2(1) show ?case
    by (auto simp: mines_fold_mark_mine safes_fold_mark_mine)
next
  case (3 s k b k1 b1)
  from resolve_safes_Inr [OF 3(2)] 3(1) show ?case
    by (auto simp: mines_fold_mark_safe safes_fold_mark_safe)
qed

lemma finite_state_add_knowledge:
  assumes "finite_state a" and "add_knowledge a c n = Inr a'"
  shows "finite_state a'"
proof -
  let ?e = "extend_knowledge a c n"
  from assms(2) obtain nk b where sw: "sweep 0 (knowledge ?e) ?e = Inr (nk, b)"
    and a': "a' = b\<lparr>knowledge := nk\<rparr>"
    by (auto simp: add_knowledge_def closure_def split: sum.splits)
  have fk: "\<forall>s\<in>set (knowledge ?e). finite (cells s)"
    using assms(1) by (intro finite_knowledge_extend) (simp add: finite_state_def)
  have "finite (mines ?e)" and "finite (safes ?e)" and "finite (moves_made ?e)"
    using assms(1) by (simp_all add: extend_knowledge_fields finite_state_def)
  with finite_sweep [OF sw] sweep_fields [OF sw] fk a' show ?thesis
    by (auto simp: finite_state_def)
qed

lemma finite_state_mark_mine: "finite_state a \<Longrightarrow> finite_state (mark_mine a c)"
  by (auto simp: finite_state_def mark_mine_def finite_cells_Sentence_mark_mine)

lemma finite_state_mark_safe: "finite_state a \<Longrightarrow> finite_state (mark_safe a c)"
  by (auto simp: finite_state_def mark_safe_def finite_cells_Sentence_mark_safe)

lemma finite_state_MinesweeperAI: "finite_state (MinesweeperAI h w)"
  by (simp add: finite_state_def MinesweeperAI_def)

subsection \<open>Purge of resolved cells\<close>

lemma cells_Sentence_mark_safe: "cells (Sentence_mark_safe s c) = cells s - {c}"
  by (simp add: Sentence_mark_safe_def)

lemma cells_Sentence_mark_mine: "cells (Sentence_mark_mine s c) = cells s - {c}"
  by (simp add: Sentence_mark_mine_def)

text \<open>
  Where a sentence of the list built by lines 182 to 204 comes from: an old sentence
  with the observed cell removed, the new sentence, or a difference of the two.
\<close>

lemma knowledge_extend_cases:
  assumes "s \<in> set (knowledge (extend_knowledge a c n))"
  obtains (old) k where "k \<in> set (knowledge a)" and "s = Sentence_mark_safe k c"
  | (new) "s = Sentence (set (get_nearby_cells a c) - insert c (moves_made a)) n"
  | (sub_old) k where "k \<in> set (knowledge a)"
      and "set (get_nearby_cells a c) - insert c (moves_made a) \<subseteq> cells (Sentence_mark_safe k c)"
      and "s = Sentence_sub (Sentence_mark_safe k c)
                 (Sentence (set (get_nearby_cells a c) - insert c (moves_made a)) n)"
  | (sub_new) k where "k \<in> set (knowledge a)"
      and "cells (Sentence_mark_safe k c) \<subseteq> set (get_nearby_cells a c) - insert c (moves_made a)"
      and "s = Sentence_sub (Sentence (set (get_nearby_cells a c) - insert c (moves_made a)) n)
                 (Sentence_mark_safe k c)"
proof -
  let ?new = "Sentence (set (get_nearby_cells a c) - insert c (moves_made a)) n"
  let ?ks = "map (\<lambda>s. Sentence_mark_safe s c) (knowledge a)"
  from assms have "s \<in> set ?ks \<or> s \<in> set (additional_sentences ?new ?ks) \<or> s = ?new"
    by (auto simp: set_knowledge_extend Let_def)
  then consider "s \<in> set ?ks" | "s \<in> set (additional_sentences ?new ?ks)" | "s = ?new"
    by blast
  then show ?thesis
  proof cases
    case 1
    then show ?thesis using old by auto
  next
    case 2
    with set_additional_sentences [of ?new ?ks]
    have "s \<in> (\<lambda>k. Sentence_sub k ?new) ` {k \<in> set ?ks. cells ?new \<subseteq> cells k} \<or>
          s \<in> (\<lambda>k. Sentence_sub ?new k) ` {k \<in> set ?ks. cells k \<subseteq> cells ?new}"
      by blast
    then show ?thesis
    proof
      assume "s \<in> (\<lambda>k. Sentence_sub k ?new) ` {k \<in> set ?ks. cells ?new \<subseteq> cells k}"
      then obtain k where "k \<in> set (knowledge a)"
        and "cells ?new \<subseteq> cells (Sentence_mark_safe k c)"
        and "s = Sentence_sub (Sentence_mark_safe k c) ?new"
        by auto
      then show ?thesis using sub_old by (simp add: Sentence_def)
    next
      assume "s \<in> (\<lambda>k. Sentence_sub ?new k) ` {k \<in> set ?ks. cells k \<subseteq> cells ?new}"
      then obtain k where "k \<in> set (knowledge a)"
        and "cells (Sentence_mark_safe k c) \<subseteq> cells ?new"
        and "s = Sentence_sub ?new (Sentence_mark_safe k c)"
        by auto
      then show ?thesis using sub_new by (simp add: Sentence_def)
    qed
  next
    case 3
    then show ?thesis using new by simp
  qed
qed

lemma moves_purged_extend:
  assumes "moves_purged a"
  shows "moves_purged (extend_knowledge a c n)"
  unfolding moves_purged_def
proof
  fix s assume "s \<in> set (knowledge (extend_knowledge a c n))"
  then show "cells s \<inter> moves_made (extend_knowledge a c n) = {}"
  proof (cases rule: knowledge_extend_cases)
    case (old k)
    with assms show ?thesis
      by (auto simp: cells_Sentence_mark_safe moves_purged_def extend_knowledge_fields)
  next
    case new
    then show ?thesis by (auto simp: Sentence_def extend_knowledge_fields)
  next
    case (sub_old k)
    with assms show ?thesis
      by (auto simp: cells_Sentence_mark_safe moves_purged_def extend_knowledge_fields
          Sentence_sub_def Sentence_def)
  next
    case (sub_new k)
    then show ?thesis
      by (auto simp: extend_knowledge_fields Sentence_sub_def Sentence_def)
  qed
qed

lemma moves_purged_add_knowledge:
  assumes "moves_purged a" and "add_knowledge a c n = Inr a'"
  shows "moves_purged a'"
proof -
  from assms(2) have c: "closure (extend_knowledge a c n) = Inr a'"
    by (simp add: add_knowledge_def)
  from closure_fields(1,4) [OF c] moves_purged_extend [OF assms(1), of c n]
  show ?thesis by (auto simp: moves_purged_def)
qed

lemma moves_purged_mark_mine: "moves_purged a \<Longrightarrow> moves_purged (mark_mine a c)"
  by (auto simp: moves_purged_def mark_mine_def cells_Sentence_mark_mine)

lemma moves_purged_mark_safe: "moves_purged a \<Longrightarrow> moves_purged (mark_safe a c)"
  by (auto simp: moves_purged_def mark_safe_def cells_Sentence_mark_safe)

lemma purged_step:
  assumes "finite_state a \<and> moves_purged a"
  shows "\<exists>a'. apply_operation a op = Inr a' \<and> finite_state a' \<and> moves_purged a'"
proof (cases op)
  case (Add_knowledge c n)
  from add_knowledge_total [of a c n] assms obtain a' where r: "add_knowledge a c n = Inr a'"
    by blast
  with assms finite_state_add_knowledge [OF _ r] moves_purged_add_knowledge [OF _ r]
  show ?thesis using Add_knowledge by simp
next
  case (Mark_mine c)
  with assms show ?thesis by (simp add: finite_state_mark_mine moves_purged_mark_mine)
next
  case (Mark_safe c)
  with assms show ?thesis by (simp add: finite_state_mark_safe moves_purged_mark_safe)
qed

text \<open>
  Claim C2 says no cell of \<open>mines\<close> or \<open>safes\<close> appears in a sentence held. Observing
  \<open>(0, 0)\<close> with count 0 makes \<open>(0, 1)\<close> safe; observing \<open>(0, 2)\<close> with count 1 then builds
  a sentence from the neighbours not yet moved on, \<open>(0, 1)\<close> among them, and keeps it.
\<close>

theorem purge_counterexample:
  "\<not> isl (run (MinesweeperAI 8 8) [Add_knowledge (0, 0) 0, Add_knowledge (0, 2) 1]) \<and>
   knowledge (projr (run (MinesweeperAI 8 8) [Add_knowledge (0, 0) 0, Add_knowledge (0, 2) 1])) =
     [\<lparr>cells = {(0, 1), (0, 3), (1, 1), (1, 2), (1, 3)}, count = 1\<rparr>] \<and>
   (0, 1) \<in> safes (projr (run (MinesweeperAI 8 8) [Add_knowledge (0, 0) 0, Add_knowledge (0, 2) 1]))"
proof -
  let ?r = "run (MinesweeperAI 8 8) [Add_knowledge (0, 0) 0, Add_knowledge (0, 2) 1]"
  have "\<not> isl ?r" by code_simp
  moreover have "knowledge (projr ?r) =
      [\<lparr>cells = {(0, 1), (0, 3), (1, 1), (1, 2), (1, 3)}, count = 1\<rparr>]" by code_simp
  moreover have "(0, 1) \<in> safes (projr ?r)" by code_simp
  ultimately show ?thesis by blast
qed

text \<open>
  The marks of the closure loop reach the old list only: \<open>(0, 2)\<close> becomes safe in the
  second call and stays in a sentence the same call keeps.
\<close>

lemma purge_lost_marks:
  "\<not> isl (run (MinesweeperAI 8 8) [Add_knowledge (0, 0) 1, Add_knowledge (0, 1) 1]) \<and>
   \<lparr>cells = {(0, 2), (1, 0), (1, 1), (1, 2)}, count = 1\<rparr> \<in>
     set (knowledge (projr (run (MinesweeperAI 8 8) [Add_knowledge (0, 0) 1, Add_knowledge (0, 1) 1]))) \<and>
   (0, 2) \<notin> safes (projr (run (MinesweeperAI 8 8) [Add_knowledge (0, 0) 1])) \<and>
   (0, 2) \<in> safes (projr (run (MinesweeperAI 8 8) [Add_knowledge (0, 0) 1, Add_knowledge (0, 1) 1]))"
  by code_simp

text \<open>
  Claim C2, amended. After any sequence of \<open>add_knowledge\<close>, \<open>mark_mine\<close> and
  \<open>mark_safe\<close> calls on a new engine, no cell of \<open>moves_made\<close> appears in a sentence held;
  and right after \<open>mark_mine(c)\<close> or \<open>mark_safe(c)\<close>, from any state, the cell \<open>c\<close> appears
  in no sentence held.
\<close>

theorem moved_cells_purged:
  "(\<exists>st. run (MinesweeperAI h w) ops = Inr st \<and>
         (\<forall>s\<in>set (knowledge st). cells s \<inter> moves_made st = {})) \<and>
   (\<forall>s\<in>set (knowledge (mark_mine self cell)). cell \<notin> cells s) \<and>
   (\<forall>s\<in>set (knowledge (mark_safe self cell)). cell \<notin> cells s)"
proof -
  have "finite_state (MinesweeperAI h w) \<and> moves_purged (MinesweeperAI h w)"
    by (simp add: finite_state_MinesweeperAI) (simp add: moves_purged_def MinesweeperAI_def)
  then have "\<exists>st. run (MinesweeperAI h w) ops = Inr st \<and> finite_state st \<and> moves_purged st"
    by (rule run_invariant) (rule purged_step)
  then have "\<exists>st. run (MinesweeperAI h w) ops = Inr st \<and>
         (\<forall>s\<in>set (knowledge st). cells s \<inter> moves_made st = {})"
    by (auto simp: moves_purged_def)
  moreover have "\<forall>s\<in>set (knowledge (mark_mine self cell)). cell \<notin> cells s"
    by (auto simp: mark_mine_def cells_Sentence_mark_mine)
  moreover have "\<forall>s\<in>set (knowledge (mark_safe self cell)). cell \<notin> cells s"
    by (auto simp: mark_safe_def cells_Sentence_mark_safe)
  ultimately show ?thesis by blast
qed

text \<open>After two observations the sentence kept has none of the two cells moved on.\<close>

theorem moved_cells_purged_witness:
  "\<exists>st. run (MinesweeperAI 8 8) [Add_knowledge (0, 0) 1, Add_knowledge (0, 1) 1] = Inr st \<and>
        \<lparr>cells = {(0, 2), (1, 0), (1, 1), (1, 2)}, count = 1\<rparr> \<in> set (knowledge st) \<and>
        moves_made st = {(0, 0), (0, 1)} \<and>
        {(0, 2), (1, 0), (1, 1), (1, 2)} \<inter> moves_made st = {}"
proof -
  let ?ops = "[Add_knowledge (0, 0) 1, Add_knowledge (0, 1) 1]"
  from moved_cells_purged [of 8 8 ?ops] obtain st where
    r: "run (MinesweeperAI 8 8) ?ops = Inr st" and
    p: "\<forall>s\<in>set (knowledge st). cells s \<inter> moves_made st = {}"
    by blast
  have k: "\<lparr>cells = {(0, 2), (1, 0), (1, 1), (1, 2)}, count = 1\<rparr> \<in>
           set (knowledge (projr (run (MinesweeperAI 8 8) ?ops)))"
    by code_simp
  have m: "moves_made (projr (run (MinesweeperAI 8 8) ?ops)) = {(0, 0), (0, 1)}"
    by code_simp
  from k r have k': "\<lparr>cells = {(0, 2), (1, 0), (1, 1), (1, 2)}, count = 1\<rparr> \<in> set (knowledge st)"
    by simp
  from p k' have "{(0, 2), (1, 0), (1, 1), (1, 2)} \<inter> moves_made st = {}" by fastforce
  with r k' m show ?thesis by simp
qed

subsection \<open>Truthful play\<close>

text \<open>
  Sentences that are true of a mine placement stay true when a cell is marked as what
  it is, and the sentences \<open>add_knowledge\<close> builds from a truthful observation are true.
\<close>

lemma sentence_true_mark_safe:
  assumes "sentence_true M s" and "c \<notin> M"
  shows "sentence_true M (Sentence_mark_safe s c)"
proof -
  have "(cells s - {c}) \<inter> M = cells s \<inter> M" using assms(2) by blast
  with assms(1) show ?thesis by (simp add: sentence_true_def Sentence_mark_safe_def)
qed

lemma sentence_true_mark_mine:
  assumes "sentence_true M s" and "c \<in> M"
  shows "sentence_true M (Sentence_mark_mine s c)"
proof (cases "c \<in> cells s")
  case False
  with assms(1) show ?thesis by (simp add: Sentence_mark_mine_def)
next
  case True
  have fin: "finite (cells s \<inter> M)" using assms(1) by (simp add: sentence_true_def)
  have in_both: "c \<in> cells s \<inter> M" using True assms(2) by simp
  have "(cells s - {c}) \<inter> M = (cells s \<inter> M) - {c}" by blast
  then have "card ((cells s - {c}) \<inter> M) = card (cells s \<inter> M) - 1"
    using fin in_both by simp
  moreover have "0 < card (cells s \<inter> M)" using fin in_both by (auto simp: card_gt_0_iff)
  ultimately have "int (card ((cells s - {c}) \<inter> M)) = int (card (cells s \<inter> M)) - 1"
    by simp
  with assms(1) True show ?thesis by (simp add: sentence_true_def Sentence_mark_mine_def)
qed

lemma sentence_true_new:
  assumes "moves_made a \<inter> M = {}" and "c \<notin> M"
    and "n = int (card (set (get_nearby_cells a c) \<inter> M))"
  shows "sentence_true M (Sentence (set (get_nearby_cells a c) - insert c (moves_made a)) n)"
proof -
  have "(set (get_nearby_cells a c) - insert c (moves_made a)) \<inter> M = set (get_nearby_cells a c) \<inter> M"
    using assms(1,2) by blast
  with assms(3) show ?thesis by (simp add: sentence_true_def Sentence_def)
qed

lemma sound_extend:
  assumes "sound M a" and "c \<notin> M" and "n = int (card (set (get_nearby_cells a c) \<inter> M))"
  shows "sound M (extend_knowledge a c n)"
proof -
  let ?new = "Sentence (set (get_nearby_cells a c) - insert c (moves_made a)) n"
  have new: "sentence_true M ?new"
    using assms by (intro sentence_true_new) (simp_all add: sound_def)
  have old: "sentence_true M (Sentence_mark_safe k c)" if "k \<in> set (knowledge a)" for k
    using that assms(1,2) by (intro sentence_true_mark_safe) (simp_all add: sound_def)
  have "sentence_true M s" if "s \<in> set (knowledge (extend_knowledge a c n))" for s
    using that
  proof (cases rule: knowledge_extend_cases)
    case (old k)
    then show ?thesis using \<open>\<And>k. k \<in> set (knowledge a) \<Longrightarrow> sentence_true M (Sentence_mark_safe k c)\<close>
      by simp
  next
    case new
    then show ?thesis using \<open>sentence_true M ?new\<close> by simp
  next
    case (sub_old k)
    have "cells ?new \<subseteq> cells (Sentence_mark_safe k c)" using sub_old(2) by (simp add: Sentence_def)
    from sentence_true_sub [OF this \<open>sentence_true M ?new\<close>] sub_old(1,3)
      \<open>\<And>k. k \<in> set (knowledge a) \<Longrightarrow> sentence_true M (Sentence_mark_safe k c)\<close>
    show ?thesis by simp
  next
    case (sub_new k)
    have "cells (Sentence_mark_safe k c) \<subseteq> cells ?new" using sub_new(2) by (simp add: Sentence_def)
    from sentence_true_sub [OF this _ \<open>sentence_true M ?new\<close>] sub_new(1,3)
      \<open>\<And>k. k \<in> set (knowledge a) \<Longrightarrow> sentence_true M (Sentence_mark_safe k c)\<close>
    show ?thesis by simp
  qed
  then show ?thesis
    using assms(1,2) by (auto simp: sound_def extend_knowledge_fields)
qed

lemma known_mines_true:
  assumes "sentence_true M s" and "truthy (known_mines s)"
  shows "cells s \<subseteq> M"
proof -
  from assms have fin: "finite (cells s)" and "card (cells s \<inter> M) = card (cells s)"
    by (simp_all add: sentence_true_def truthy_known_mines)
  then have "cells s \<inter> M = cells s" by (intro card_subset_eq) auto
  then show ?thesis by blast
qed

lemma known_safes_true:
  assumes "sentence_true M s" and "truthy (known_safes s)"
  shows "cells s \<inter> M = {}"
  using assms by (simp add: sentence_true_def truthy_known_safes)

lemma sound_sweep:
  assumes "sweep i nk a = Inr (nk', a')"
    and "\<forall>s\<in>set nk. sentence_true M s" and "mines a \<subseteq> M" and "safes a \<inter> M = {}"
  shows "mines a' \<subseteq> M \<and> safes a' \<inter> M = {}"
proof -
  let ?Q = "\<lambda>k b. set k \<subseteq> set nk \<and> mines b \<subseteq> M \<and> safes b \<inter> M = {}"
  have "?Q nk' a'"
  proof (rule sweep_invariant [OF assms(1), where Q = ?Q], goal_cases)
    case 1
    show ?case using assms by simp
  next
    case (2 s k b k1 b1)
    from resolve_mines_Inr [OF 2(2)] show ?case
    proof
      assume "\<not> truthy (known_mines s) \<and> k1 = k \<and> b1 = b"
      with 2(1) show ?thesis by simp
    next
      assume r: "truthy (known_mines s) \<and> s \<in> set k \<and> k1 = remove1 s k \<and>
        b1 = fold (\<lambda>mine a. mark_mine a mine) (sorted_list_of_set (cells s)) b"
      with 2(1) assms(2) have t: "sentence_true M s" by blast
      then have "finite (cells s)" by (simp add: sentence_true_def)
      moreover have "cells s \<subseteq> M" using t r by (intro known_mines_true) simp_all
      ultimately show ?thesis
        using r 2(1) set_remove1_subset [of s k]
        by (auto simp: mines_fold_mark_mine safes_fold_mark_mine)
    qed
  next
    case (3 s k b k1 b1)
    from resolve_safes_Inr [OF 3(2)] show ?case
    proof
      assume "\<not> truthy (known_safes s) \<and> k1 = k \<and> b1 = b"
      with 3(1) show ?thesis by simp
    next
      assume r: "truthy (known_safes s) \<and> s \<in> set k \<and> k1 = remove1 s k \<and>
        b1 = fold (\<lambda>safe a. mark_safe a safe) (sorted_list_of_set (cells s)) b"
      with 3(1) assms(2) have t: "sentence_true M s" by blast
      then have "finite (cells s)" by (simp add: sentence_true_def)
      moreover have "cells s \<inter> M = {}" using t r by (intro known_safes_true) simp_all
      ultimately show ?thesis
        using r 3(1) set_remove1_subset [of s k]
        by (auto simp: mines_fold_mark_safe safes_fold_mark_safe)
    qed
  qed
  then show ?thesis by simp
qed

lemma sound_add_knowledge:
  assumes "sound M a" and "c \<notin> M" and "n = int (card (set (get_nearby_cells a c) \<inter> M))"
  shows "\<exists>a'. add_knowledge a c n = Inr a' \<and> sound M a'"
proof -
  let ?e = "extend_knowledge a c n"
  have e: "sound M ?e" using assms by (rule sound_extend)
  then have "\<forall>s\<in>set (knowledge ?e). finite (cells s)"
    by (simp add: sound_def sentence_true_def)
  from sweep_total [OF this, of 0 ?e] obtain nk b where
    sw: "sweep 0 (knowledge ?e) ?e = Inr (nk, b)" by (metis surj_pair)
  then have r: "add_knowledge a c n = Inr (b\<lparr>knowledge := nk\<rparr>)"
    by (simp add: add_knowledge_def closure_def)
  from sound_sweep [OF sw, of M] sweep_fields [OF sw] e
  have "sound M (b\<lparr>knowledge := nk\<rparr>)" by (auto simp: sound_def)
  with r show ?thesis by blast
qed

lemma sound_mark_mine: "sound M a \<Longrightarrow> c \<in> M \<Longrightarrow> sound M (mark_mine a c)"
  by (auto simp: sound_def mark_mine_def sentence_true_mark_mine)

lemma sound_mark_safe: "sound M a \<Longrightarrow> c \<notin> M \<Longrightarrow> sound M (mark_safe a c)"
  by (auto simp: sound_def mark_safe_def sentence_true_mark_safe)

lemma sound_step:
  assumes "sound M a" and "truthful M a0 op"
  shows "\<exists>a'. apply_operation a op = Inr a' \<and> sound M a'"
proof (cases op)
  case (Add_knowledge c n)
  with assms(2) have "c \<notin> M" and "n = int (card (set (get_nearby_cells a c) \<inter> M))"
    by (simp_all add: get_nearby_cells_self [of a0 c a])
  from sound_add_knowledge [OF assms(1) this] Add_knowledge show ?thesis by simp
next
  case (Mark_mine c)
  with assms show ?thesis by (simp add: sound_mark_mine)
next
  case (Mark_safe c)
  with assms show ?thesis by (simp add: sound_mark_safe)
qed

lemma sound_run:
  assumes "\<forall>op\<in>set ops. truthful M (MinesweeperAI h w) op"
  shows "\<exists>st. run (MinesweeperAI h w) ops = Inr st \<and> sound M st"
proof (rule run_invariant)
  show "sound M (MinesweeperAI h w)" by (simp add: sound_def MinesweeperAI_def)
next
  fix a op assume "sound M a" and "op \<in> set ops"
  with assms show "\<exists>a'. apply_operation a op = Inr a' \<and> sound M a'"
    by (intro sound_step [where ?a0.0 = "MinesweeperAI h w"]) auto
qed

text \<open>
  Claim C5 says every sentence held satisfies \<open>0 \<le> count \<le> |cells|\<close>. Observing the
  corner \<open>(0, 0)\<close> with count 5 leaves a sentence of three cells and count 5.
\<close>

theorem constraint_invariant_counterexample:
  "\<not> isl (add_knowledge (MinesweeperAI 8 8) (0, 0) 5) \<and>
   knowledge (projr (add_knowledge (MinesweeperAI 8 8) (0, 0) 5)) =
     [\<lparr>cells = {(0, 1), (1, 0), (1, 1)}, count = 5\<rparr>] \<and>
   \<not> count_in_range \<lparr>cells = {(0, 1), (1, 0), (1, 1)}, count = 5\<rparr>"
proof -
  have "\<not> isl (add_knowledge (MinesweeperAI 8 8) (0, 0) 5)" by code_simp
  moreover have "knowledge (projr (add_knowledge (MinesweeperAI 8 8) (0, 0) 5)) =
     [\<lparr>cells = {(0, 1), (1, 0), (1, 1)}, count = 5\<rparr>]" by code_simp
  moreover have "\<not> count_in_range \<lparr>cells = {(0, 1), (1, 0), (1, 1)}, count = 5\<rparr>"
    by (simp add: count_in_range_def)
  ultimately show ?thesis by blast
qed

text \<open>
  Claim C5, amended. When every operation of a sequence on a new engine is truthful for
  one mine placement \<open>M\<close>, every sentence held afterwards is true of \<open>M\<close> and satisfies
  \<open>0 \<le> count \<le> |cells|\<close>, and so does every sentence of the list the next truthful
  \<open>add_knowledge\<close> builds before its closure loop.
\<close>

theorem constraint_invariant_truthful:
  assumes "\<forall>op\<in>set ops. truthful M (MinesweeperAI h w) op"
  shows "\<exists>st. run (MinesweeperAI h w) ops = Inr st \<and>
           (\<forall>s\<in>set (knowledge st). sentence_true M s \<and> 0 \<le> count s \<and> count s \<le> int (card (cells s))) \<and>
           (\<forall>cell n. truthful M st (Add_knowledge cell n) \<longrightarrow>
              (\<forall>s\<in>set (knowledge (extend_knowledge st cell n)).
                 0 \<le> count s \<and> count s \<le> int (card (cells s))))"
proof -
  from sound_run [OF assms] obtain st where r: "run (MinesweeperAI h w) ops = Inr st"
    and s: "sound M st" by blast
  have "\<forall>s\<in>set (knowledge st). sentence_true M s \<and> 0 \<le> count s \<and> count s \<le> int (card (cells s))"
    using s sentence_true_count_in_range [of M] by (auto simp: sound_def count_in_range_def)
  moreover have "\<forall>s\<in>set (knowledge (extend_knowledge st cell n)).
      0 \<le> count s \<and> count s \<le> int (card (cells s))"
    if "truthful M st (Add_knowledge cell n)" for cell n
  proof -
    from that s have "sound M (extend_knowledge st cell n)" by (intro sound_extend) simp_all
    then show ?thesis
      using sentence_true_count_in_range [of M] by (auto simp: sound_def count_in_range_def)
  qed
  ultimately show ?thesis using r by blast
qed

text \<open>Two truthful observations and a flag, with the mine at \<open>(1, 1)\<close>.\<close>

theorem constraint_invariant_truthful_witness:
  "\<exists>st. run (MinesweeperAI 8 8) [Add_knowledge (0, 1) 1, Add_knowledge (1, 0) 1, Mark_mine (1, 1)]
          = Inr st \<and>
        knowledge st = [\<lparr>cells = {(0, 0), (0, 2), (1, 2)}, count = 0\<rparr>,
                        \<lparr>cells = {(0, 0), (2, 0), (2, 1)}, count = 0\<rparr>] \<and>
        sentence_true {(1, 1)} \<lparr>cells = {(0, 0), (0, 2), (1, 2)}, count = 0\<rparr> \<and>
        count_in_range \<lparr>cells = {(0, 0), (2, 0), (2, 1)}, count = 0\<rparr>"
proof -
  let ?ops = "[Add_knowledge (0, 1) 1, Add_knowledge (1, 0) 1, Mark_mine (1, 1)]"
  have h: "\<forall>op\<in>set ?ops. truthful {(1, 1)} (MinesweeperAI 8 8) op"
    by code_simp
  from constraint_invariant_truthful [OF h] obtain st where
    r: "run (MinesweeperAI 8 8) ?ops = Inr st" and
    p: "\<forall>s\<in>set (knowledge st).
          sentence_true {(1, 1)} s \<and> 0 \<le> count s \<and> count s \<le> int (card (cells s))"
    by blast
  have k: "knowledge (projr (run (MinesweeperAI 8 8) ?ops)) =
           [\<lparr>cells = {(0, 0), (0, 2), (1, 2)}, count = 0\<rparr>,
            \<lparr>cells = {(0, 0), (2, 0), (2, 1)}, count = 0\<rparr>]"
    by code_simp
  with r have k': "knowledge st = [\<lparr>cells = {(0, 0), (0, 2), (1, 2)}, count = 0\<rparr>,
            \<lparr>cells = {(0, 0), (2, 0), (2, 1)}, count = 0\<rparr>]" by simp
  from p k' have "sentence_true {(1, 1)} \<lparr>cells = {(0, 0), (0, 2), (1, 2)}, count = 0\<rparr>"
    and "count_in_range \<lparr>cells = {(0, 0), (2, 0), (2, 1)}, count = 0\<rparr>"
    by (simp_all add: count_in_range_def)
  with r k' show ?thesis by blast
qed

text \<open>
  Claim C6 says \<open>mines\<close> and \<open>safes\<close> are disjoint after every operation. Observing
  \<open>(0, 0)\<close> with count 3 makes \<open>(1, 1)\<close> a mine; observing \<open>(2, 2)\<close> with count 0 makes it
  safe as well.
\<close>

theorem disjoint_counterexample:
  "\<not> isl (run (MinesweeperAI 8 8) [Add_knowledge (0, 0) 3, Add_knowledge (2, 2) 0]) \<and>
   (1, 1) \<in> mines (projr (run (MinesweeperAI 8 8) [Add_knowledge (0, 0) 3, Add_knowledge (2, 2) 0])) \<and>
   (1, 1) \<in> safes (projr (run (MinesweeperAI 8 8) [Add_knowledge (0, 0) 3, Add_knowledge (2, 2) 0]))"
  by code_simp

text \<open>
  Claim C6, amended. When every operation of a sequence on a new engine is truthful for
  one mine placement \<open>M\<close>, afterwards \<open>mines\<close> lies within \<open>M\<close> and \<open>safes\<close> outside it:
  the two sets are disjoint.
\<close>

theorem disjoint_truthful:
  assumes "\<forall>op\<in>set ops. truthful M (MinesweeperAI h w) op"
  shows "\<exists>st. run (MinesweeperAI h w) ops = Inr st \<and>
           mines st \<subseteq> M \<and> safes st \<inter> M = {} \<and> mines st \<inter> safes st = {}"
proof -
  from sound_run [OF assms] obtain st where r: "run (MinesweeperAI h w) ops = Inr st"
    and s: "sound M st" by blast
  from s have "mines st \<subseteq> M" and "safes st \<inter> M = {}" by (simp_all add: sound_def)
  then have "mines st \<inter> safes st = {}" by blast
  with r \<open>mines st \<subseteq> M\<close> \<open>safes st \<inter> M = {}\<close> show ?thesis by blast
qed

text \<open>Three truthful observations around the mine \<open>(1, 1)\<close>.\<close>

theorem disjoint_truthful_witness:
  "\<exists>st. run (MinesweeperAI 8 8) [Add_knowledge (0, 1) 1, Add_knowledge (1, 0) 1, Add_knowledge (0, 0) 1]
          = Inr st \<and>
        mines st = {(1, 1)} \<and> safes st = {(0, 0), (0, 1), (0, 2), (1, 0), (1, 2)} \<and>
        mines st \<inter> safes st = {}"
proof -
  let ?ops = "[Add_knowledge (0, 1) 1, Add_knowledge (1, 0) 1, Add_knowledge (0, 0) 1]"
  have h: "\<forall>op\<in>set ?ops. truthful {(1, 1)} (MinesweeperAI 8 8) op"
    by code_simp
  from disjoint_truthful [OF h] obtain st where
    r: "run (MinesweeperAI 8 8) ?ops = Inr st" and d: "mines st \<inter> safes st = {}"
    by blast
  have "mines (projr (run (MinesweeperAI 8 8) ?ops)) = {(1, 1)}" by code_simp
  moreover have "safes (projr (run (MinesweeperAI 8 8) ?ops)) =
                 {(0, 0), (0, 1), (0, 2), (1, 0), (1, 2)}" by code_simp
  ultimately show ?thesis using r d by simp
qed

subsection \<open>The closure loop\<close>

text \<open>Every sentence the loop takes out of the list has its cells marked.\<close>

lemma sweep_dropped_marked:
  assumes "sweep i nk a = Inr (nk', a')" and "\<forall>s\<in>set nk. finite (cells s)"
  shows "\<forall>s\<in>set nk - set nk'.
           (truthy (known_safes s) \<and> cells s \<subseteq> safes a') \<or>
           (truthy (known_mines s) \<and> cells s \<subseteq> mines a')"
proof -
  let ?R = "\<lambda>b s. (truthy (known_safes s) \<and> cells s \<subseteq> safes b) \<or>
                   (truthy (known_mines s) \<and> cells s \<subseteq> mines b)"
  let ?Q = "\<lambda>k b. set k \<subseteq> set nk \<and> (\<forall>s\<in>set nk - set k. ?R b s)"
  have "?Q nk' a'"
  proof (rule sweep_invariant [OF assms(1), where Q = ?Q], goal_cases)
    case 1
    show ?case by simp
  next
    case (2 s k b k1 b1)
    from resolve_mines_Inr [OF 2(2)] show ?case
    proof
      assume "\<not> truthy (known_mines s) \<and> k1 = k \<and> b1 = b"
      with 2(1) show ?thesis by simp
    next
      assume r: "truthy (known_mines s) \<and> s \<in> set k \<and> k1 = remove1 s k \<and>
        b1 = fold (\<lambda>mine a. mark_mine a mine) (sorted_list_of_set (cells s)) b"
      with 2(1) assms(2) have fin: "finite (cells s)" by blast
      have m: "mines b1 = mines b \<union> cells s" and sf: "safes b1 = safes b"
        using r fin by (simp_all add: mines_fold_mark_mine safes_fold_mark_mine)
      have sub: "set k1 \<subseteq> set nk" using r 2(1) set_remove1_subset [of s k] by auto
      have "?R b1 t" if "t \<in> set nk - set k1" for t
      proof (cases "t = s")
        case True
        with r m show ?thesis by simp
      next
        case False
        with that r have "t \<in> set nk - set k" by (simp add: in_set_remove1)
        with 2(1) have "?R b t" by blast
        then show ?thesis using m sf by auto
      qed
      with sub show ?thesis by blast
    qed
  next
    case (3 s k b k1 b1)
    from resolve_safes_Inr [OF 3(2)] show ?case
    proof
      assume "\<not> truthy (known_safes s) \<and> k1 = k \<and> b1 = b"
      with 3(1) show ?thesis by simp
    next
      assume r: "truthy (known_safes s) \<and> s \<in> set k \<and> k1 = remove1 s k \<and>
        b1 = fold (\<lambda>safe a. mark_safe a safe) (sorted_list_of_set (cells s)) b"
      with 3(1) assms(2) have fin: "finite (cells s)" by blast
      have sf: "safes b1 = safes b \<union> cells s" and m: "mines b1 = mines b"
        using r fin by (simp_all add: mines_fold_mark_safe safes_fold_mark_safe)
      have sub: "set k1 \<subseteq> set nk" using r 3(1) set_remove1_subset [of s k] by auto
      have "?R b1 t" if "t \<in> set nk - set k1" for t
      proof (cases "t = s")
        case True
        with r sf show ?thesis by simp
      next
        case False
        with that r have "t \<in> set nk - set k" by (simp add: in_set_remove1)
        with 3(1) have "?R b t" by blast
        then show ?thesis using m sf by auto
      qed
      with sub show ?thesis by blast
    qed
  qed
  then show ?thesis by simp
qed

text \<open>
  Nothing is deleted before the first resolvable sentence, so the loop reaches it and
  deletes it.
\<close>

lemma resolve_not_resolvable:
  assumes "\<not> resolvable s"
  shows "resolve_mines s nk a = Inr (nk, a)" and "resolve_safes s nk a = Inr (nk, a)"
  using assms by (simp_all add: resolvable_def resolve_mines_def resolve_safes_def)

lemma sweep_skip_not_resolvable:
  assumes "i < length nk" and "\<not> resolvable (nk ! i)"
  shows "sweep i nk a = sweep (i + 1) nk a"
  using assms by (subst sweep.simps) (simp add: resolve_not_resolvable)

lemma sweep_drops_resolvable:
  assumes "sweep j nk a = Inr (nk', a')" and "j < length nk" and "resolvable (nk ! j)"
    and "distinct nk"
  shows "nk ! j \<notin> set nk'"
proof -
  let ?s = "nk ! j"
  from assms(1,2) obtain nk1 a1 nk2 a2 where
    m: "resolve_mines ?s nk a = Inr (nk1, a1)" and
    s: "resolve_safes ?s nk1 a1 = Inr (nk2, a2)" and
    r: "sweep (j + 1) nk2 a2 = Inr (nk', a')"
    by (subst (asm) sweep.simps) (auto split: sum.splits)
  have d1: "distinct nk1" using resolve_mines_fields(5) [OF m] assms(4) .
  have "?s \<notin> set nk2"
  proof (cases "truthy (known_mines ?s)")
    case True
    with resolve_mines_Inr [OF m] have "nk1 = remove1 ?s nk" by blast
    then have "?s \<notin> set nk1" using assms(4) by simp
    then show ?thesis using resolve_safes_fields(4) [OF s] by blast
  next
    case False
    with assms(3) have "truthy (known_safes ?s)" by (simp add: resolvable_def)
    with resolve_safes_Inr [OF s] have "nk2 = remove1 ?s nk1" by blast
    then show ?thesis using d1 by simp
  qed
  moreover have "set nk' \<subseteq> set nk2" using sweep_fields [OF r] by simp
  ultimately show ?thesis by blast
qed

lemma sweep_first_resolvable:
  assumes "sweep i nk a = Inr (nk', a')" and "i \<le> j" and "j < length nk"
    and "\<forall>m. i \<le> m \<and> m < j \<longrightarrow> \<not> resolvable (nk ! m)" and "resolvable (nk ! j)"
    and "distinct nk"
  shows "nk ! j \<notin> set nk'"
  using assms(1,2,4)
proof (induction "j - i" arbitrary: i)
  case 0
  then have "i = j" by simp
  with 0(2) have "sweep j nk a = Inr (nk', a')" by simp
  from sweep_drops_resolvable [OF this assms(3,5,6)] show ?case .
next
  case (Suc d)
  then have lt: "i < j" by simp
  with Suc.prems(3) have nr: "\<not> resolvable (nk ! i)" by simp
  have "i < length nk" using lt assms(3) by simp
  from sweep_skip_not_resolvable [OF this nr, of a] Suc.prems(1)
  have sw: "sweep (i + 1) nk a = Inr (nk', a')" by simp
  have d: "d = j - (i + 1)" using Suc.hyps(2) by simp
  have le: "i + 1 \<le> j" using lt by simp
  have rest: "\<forall>m. i + 1 \<le> m \<and> m < j \<longrightarrow> \<not> resolvable (nk ! m)"
    using Suc.prems(3) by simp
  from Suc.hyps(1) [OF d sw le rest] show ?case .
qed

lemma sweep_find_resolvable:
  assumes "sweep 0 nk a = Inr (nk', a')" and "find resolvable nk = Some s" and "distinct nk"
  shows "s \<notin> set nk'"
proof -
  from assms(2) obtain j where j: "j < length nk" and "resolvable (nk ! j)" and "s = nk ! j"
    and "\<forall>m<j. \<not> resolvable (nk ! m)"
    by (auto simp: find_Some_iff)
  with sweep_first_resolvable [OF assms(1) _ j _ _ assms(3)] show ?thesis by simp
qed

text \<open>
  Claim C1 says that after \<open>add_knowledge\<close> every sentence of count 0 has its cells in
  \<open>safes\<close>. With the mine at \<open>(1, 1)\<close>, the cells \<open>(0, 1)\<close>, \<open>(1, 0)\<close> and \<open>(0, 0)\<close> are
  observed, each with count 1. The list the third call sweeps holds
  \<open>{(0, 2), (1, 2)} = 0\<close> at index 2 and \<open>{(2, 0), (2, 1)} = 0\<close> at index 3, both
  resolvable as they stand. The loop removes the first while it walks the list, and so
  never looks at the second: it is still held when the call returns, and neither
  \<open>(2, 0)\<close> nor \<open>(2, 1)\<close> is in \<open>safes\<close>.
\<close>

theorem closure_skips_resolvable:
  "\<not> isl (run (MinesweeperAI 8 8) [Add_knowledge (0, 1) 1, Add_knowledge (1, 0) 1]) \<and>
   knowledge (extend_knowledge
       (projr (run (MinesweeperAI 8 8) [Add_knowledge (0, 1) 1, Add_knowledge (1, 0) 1]))
       (0, 0) 1) =
     [\<lparr>cells = {(0, 2), (1, 1), (1, 2)}, count = 1\<rparr>,
      \<lparr>cells = {(1, 1), (2, 0), (2, 1)}, count = 1\<rparr>,
      \<lparr>cells = {(0, 2), (1, 2)}, count = 0\<rparr>,
      \<lparr>cells = {(2, 0), (2, 1)}, count = 0\<rparr>,
      \<lparr>cells = {(1, 1)}, count = 1\<rparr>] \<and>
   resolvable \<lparr>cells = {(2, 0), (2, 1)}, count = 0\<rparr> \<and>
   run (MinesweeperAI 8 8)
       [Add_knowledge (0, 1) 1, Add_knowledge (1, 0) 1, Add_knowledge (0, 0) 1] =
     Inr \<lparr>height = 8, width = 8, moves_made = {(0, 0), (0, 1), (1, 0)}, mines = {(1, 1)},
          safes = {(0, 0), (0, 1), (0, 2), (1, 0), (1, 2)},
          knowledge =
            [\<lparr>cells = {(0, 2), (1, 1), (1, 2)}, count = 1\<rparr>,
             \<lparr>cells = {(1, 1), (2, 0), (2, 1)}, count = 1\<rparr>,
             \<lparr>cells = {(2, 0), (2, 1)}, count = 0\<rparr>],
          MINE_COUNT = 8\<rparr>"
proof -
  let ?st = "projr (run (MinesweeperAI 8 8) [Add_knowledge (0, 1) 1, Add_knowledge (1, 0) 1])"
  have "\<not> isl (run (MinesweeperAI 8 8) [Add_knowledge (0, 1) 1, Add_knowledge (1, 0) 1])"
    by code_simp
  moreover have "knowledge (extend_knowledge ?st (0, 0) 1) =
     [\<lparr>cells = {(0, 2), (1, 1), (1, 2)}, count = 1\<rparr>,
      \<lparr>cells = {(1, 1), (2, 0), (2, 1)}, count = 1\<rparr>,
      \<lparr>cells = {(0, 2), (1, 2)}, count = 0\<rparr>,
      \<lparr>cells = {(2, 0), (2, 1)}, count = 0\<rparr>,
      \<lparr>cells = {(1, 1)}, count = 1\<rparr>]"
    by code_simp
  moreover have "resolvable \<lparr>cells = {(2, 0), (2, 1)}, count = 0\<rparr>"
    by (simp add: resolvable_def truthy_known_safes)
  moreover have "run (MinesweeperAI 8 8)
       [Add_knowledge (0, 1) 1, Add_knowledge (1, 0) 1, Add_knowledge (0, 0) 1] =
     Inr \<lparr>height = 8, width = 8, moves_made = {(0, 0), (0, 1), (1, 0)}, mines = {(1, 1)},
          safes = {(0, 0), (0, 1), (0, 2), (1, 0), (1, 2)},
          knowledge =
            [\<lparr>cells = {(0, 2), (1, 1), (1, 2)}, count = 1\<rparr>,
             \<lparr>cells = {(1, 1), (2, 0), (2, 1)}, count = 1\<rparr>,
             \<lparr>cells = {(2, 0), (2, 1)}, count = 0\<rparr>],
          MINE_COUNT = 8\<rparr>"
    by code_simp
  ultimately show ?thesis by blast
qed

text \<open>So the sentence of count 0 is held afterwards and its cells are unmarked.\<close>

theorem closure_skips_resolvable_witness:
  "\<lparr>cells = {(2, 0), (2, 1)}, count = 0\<rparr> \<in> set (knowledge (projr (run (MinesweeperAI 8 8)
      [Add_knowledge (0, 1) 1, Add_knowledge (1, 0) 1, Add_knowledge (0, 0) 1]))) \<and>
   (2, 0) \<notin> safes (projr (run (MinesweeperAI 8 8)
      [Add_knowledge (0, 1) 1, Add_knowledge (1, 0) 1, Add_knowledge (0, 0) 1])) \<and>
   (2, 1) \<notin> safes (projr (run (MinesweeperAI 8 8)
      [Add_knowledge (0, 1) 1, Add_knowledge (1, 0) 1, Add_knowledge (0, 0) 1]))"
  using closure_skips_resolvable by simp

text \<open>
  What one run of the loop does, from any state: a sentence of the swept list that is no
  longer held afterwards had non-empty cells and count 0, with all its cells in \<open>safes\<close>
  afterwards, or count \<open>|cells|\<close>, with all its cells in \<open>mines\<close> afterwards; and the loop
  reaches the first resolvable sentence of the list.
\<close>

lemma add_knowledge_single_sweep:
  assumes "finite_state self"
  shows "\<exists>self'. add_knowledge self cell n = Inr self' \<and>
           (\<forall>s\<in>set (knowledge (extend_knowledge self cell n)).
              s \<in> set (knowledge self') \<or>
              (count s = 0 \<and> cells s \<noteq> {} \<and> cells s \<subseteq> safes self') \<or>
              (count s = int (card (cells s)) \<and> cells s \<noteq> {} \<and> cells s \<subseteq> mines self')) \<and>
           (\<forall>s. find resolvable (knowledge (extend_knowledge self cell n)) = Some s \<longrightarrow>
              s \<notin> set (knowledge self') \<and>
              ((count s = 0 \<and> cells s \<subseteq> safes self') \<or>
               (count s = int (card (cells s)) \<and> cells s \<subseteq> mines self')))"
proof -
  let ?e = "extend_knowledge self cell n"
  have fk: "\<forall>s\<in>set (knowledge ?e). finite (cells s)"
    using assms by (intro finite_knowledge_extend) (simp add: finite_state_def)
  from sweep_total [OF fk, of 0 ?e] obtain nk b where
    sw: "sweep 0 (knowledge ?e) ?e = Inr (nk, b)" by (metis surj_pair)
  let ?r = "b\<lparr>knowledge := nk\<rparr>"
  have r: "add_knowledge self cell n = Inr ?r"
    using sw by (simp add: add_knowledge_def closure_def)
  have dropped: "\<forall>s\<in>set (knowledge ?e).
      s \<in> set (knowledge ?r) \<or>
      (count s = 0 \<and> cells s \<noteq> {} \<and> cells s \<subseteq> safes ?r) \<or>
      (count s = int (card (cells s)) \<and> cells s \<noteq> {} \<and> cells s \<subseteq> mines ?r)"
    using sweep_dropped_marked [OF sw fk]
    by (auto simp: truthy_known_mines truthy_known_safes)
  have first: "s \<notin> set (knowledge ?r) \<and>
      ((count s = 0 \<and> cells s \<subseteq> safes ?r) \<or>
       (count s = int (card (cells s)) \<and> cells s \<subseteq> mines ?r))"
    if f: "find resolvable (knowledge ?e) = Some s" for s
  proof -
    from sweep_find_resolvable [OF sw f] have gone: "s \<notin> set (knowledge ?r)"
      by (simp add: extend_knowledge_fields)
    from f have "s \<in> set (knowledge ?e)" by (auto simp: find_Some_iff)
    with dropped gone show ?thesis by blast
  qed
  from r dropped first show ?thesis by blast
qed

text \<open>Observing \<open>(0, 0)\<close> with count 0 on a new engine makes its three neighbours safe.\<close>

lemma add_knowledge_single_sweep_example:
  "\<exists>self'. add_knowledge (MinesweeperAI 8 8) (0, 0) 0 = Inr self' \<and>
     knowledge (extend_knowledge (MinesweeperAI 8 8) (0, 0) 0) =
       [\<lparr>cells = {(0, 1), (1, 0), (1, 1)}, count = 0\<rparr>] \<and>
     \<lparr>cells = {(0, 1), (1, 0), (1, 1)}, count = 0\<rparr> \<notin> set (knowledge self') \<and>
     {(0, 1), (1, 0), (1, 1)} \<subseteq> safes self'"
proof -
  let ?a = "MinesweeperAI 8 8"
  let ?s = "\<lparr>cells = {(0, 1), (1, 0), (1, 1)}, count = 0\<rparr>"
  have h: "finite_state ?a" by (rule finite_state_MinesweeperAI)
  have e: "knowledge (extend_knowledge ?a (0, 0) 0) = [?s]" by code_simp
  have f: "find resolvable (knowledge (extend_knowledge ?a (0, 0) 0)) = Some ?s" by code_simp
  from add_knowledge_single_sweep [OF h, of "(0, 0)" 0] obtain self' where
    r: "add_knowledge ?a (0, 0) 0 = Inr self'" and
    first: "\<forall>s. find resolvable (knowledge (extend_knowledge ?a (0, 0) 0)) = Some s \<longrightarrow>
              s \<notin> set (knowledge self') \<and>
              ((count s = 0 \<and> cells s \<subseteq> safes self') \<or>
               (count s = int (card (cells s)) \<and> cells s \<subseteq> mines self'))"
    by blast
  from first f have "?s \<notin> set (knowledge self')" and "cells ?s \<subseteq> safes self'" by auto
  with r e show ?thesis by simp
qed

end
